theory Spec2Isabelle
  imports Complex_Main "HOL-Library.Word"
begin

unbundle bit_operations_syntax

section \<open>CDG decoder (parser.ts)\<close>

text \<open>
  A \<open>Buffer\<close> and a \<open>Uint8Array\<close> hold bytes: \<open>8 word\<close>. A JavaScript number that
  the decoder computes from a byte is a small non-negative integer: \<open>nat\<close>, with the
  bitwise operators of JavaScript (\<open>&\<close>, \<open>|\<close>, \<open>>>\<close>, \<open><<\<close>) as \<open>AND\<close>, \<open>OR\<close>,
  \<open>drop_bit\<close>, \<open>push_bit\<close> on \<open>nat\<close>. Times in milliseconds are JavaScript numbers,
  that is IEEE 754 doubles: a finite double is a rational, so times are of type \<open>rat\<close>,
  and the division and the multiplication that the decoder computes them with round
  their exact result to the nearest double (\<open>jsDiv\<close>, \<open>jsMul\<close> below).
\<close>

type_synonym byte = "8 word"

definition CDG_WIDTH :: nat where "CDG_WIDTH = 300"
definition CDG_HEIGHT :: nat where "CDG_HEIGHT = 216"
definition CDG_VISIBLE_WIDTH :: nat where "CDG_VISIBLE_WIDTH = 288"
definition CDG_VISIBLE_HEIGHT :: nat where "CDG_VISIBLE_HEIGHT = 192"
definition CDG_BORDER_X :: nat where "CDG_BORDER_X = 6"
definition CDG_BORDER_Y :: nat where "CDG_BORDER_Y = 12"
definition CDG_TILE_WIDTH :: nat where "CDG_TILE_WIDTH = 6"
definition CDG_TILE_HEIGHT :: nat where "CDG_TILE_HEIGHT = 12"
definition CDG_PACKETS_PER_SECOND :: nat where "CDG_PACKETS_PER_SECOND = 300"
definition CDG_PACKET_SIZE :: nat where "CDG_PACKET_SIZE = 24"
definition CDG_COLORS :: nat where "CDG_COLORS = 16"

lemmas cdg_consts =
  CDG_WIDTH_def CDG_HEIGHT_def CDG_VISIBLE_WIDTH_def CDG_VISIBLE_HEIGHT_def
  CDG_BORDER_X_def CDG_BORDER_Y_def CDG_TILE_WIDTH_def CDG_TILE_HEIGHT_def
  CDG_PACKETS_PER_SECOND_def CDG_PACKET_SIZE_def CDG_COLORS_def

text \<open>The opcode table \<open>CDG_INST\<close>.\<close>

definition MEMORY_PRESET :: nat where "MEMORY_PRESET = 1"
definition BORDER_PRESET :: nat where "BORDER_PRESET = 2"
definition TILE_BLOCK :: nat where "TILE_BLOCK = 6"
definition SCROLL_PRESET :: nat where "SCROLL_PRESET = 20"
definition SCROLL_COPY :: nat where "SCROLL_COPY = 24"
definition DEFINE_TRANSPARENT :: nat where "DEFINE_TRANSPARENT = 28"
definition LOAD_COLOR_TABLE_LO :: nat where "LOAD_COLOR_TABLE_LO = 30"
definition LOAD_COLOR_TABLE_HI :: nat where "LOAD_COLOR_TABLE_HI = 31"
definition TILE_BLOCK_XOR :: nat where "TILE_BLOCK_XOR = 38"

lemmas cdg_inst =
  MEMORY_PRESET_def BORDER_PRESET_def TILE_BLOCK_def SCROLL_PRESET_def SCROLL_COPY_def
  DEFINE_TRANSPARENT_def LOAD_COLOR_TABLE_LO_def LOAD_COLOR_TABLE_HI_def TILE_BLOCK_XOR_def

record CdgColor =
  r :: nat
  g :: nat
  b :: nat

text \<open>
  The union type \<open>CdgInstruction\<close>; the fields of each variant in the order of the
  interfaces: \<open>MemoryPreset color repeat\<close>, \<open>BorderPreset color\<close>,
  \<open>TileBlock xor color0 color1 row column pixels\<close>,
  \<open>Scroll copy color hScroll vScroll hOffset vOffset\<close>, \<open>DefineTransparent color\<close>,
  \<open>LoadColorTable offset colors\<close>.
\<close>

datatype CdgInstruction =
    MemoryPreset nat nat
  | BorderPreset nat
  | TileBlock bool nat nat nat nat "nat list"
  | Scroll bool nat nat nat nat nat
  | DefineTransparent nat
  | LoadColorTable nat "CdgColor list"

record CdgPacket =
  timeMs :: rat
  instruction :: "CdgInstruction option"

record ParsedCdg =
  packets :: "CdgPacket list"
  durationMs :: rat

text \<open>
  \<open>data[k]\<close> on a buffer, used as an operand of \<open>&\<close>: a read past the end gives
  \<open>undefined\<close>, which \<open>&\<close> takes as 0.
\<close>

definition byteAt :: "byte list \<Rightarrow> nat \<Rightarrow> nat" where
  "byteAt data k = (if k < length data then unat (data ! k) else 0)"

text \<open>\<open>buffer.subarray(from, to)\<close>, for \<open>from \<le> to\<close>.\<close>

definition subarray :: "byte list \<Rightarrow> nat \<Rightarrow> nat \<Rightarrow> byte list" where
  "subarray buf from to = take (to - from) (drop from buf)"

text \<open>One entry of the colour table, the body of the loop over \<open>i\<close> in \<open>parseInstruction\<close>.\<close>

definition parseColor :: "byte list \<Rightarrow> nat \<Rightarrow> CdgColor" where
  "parseColor data i =
     (let lo = byteAt data (i * 2) AND 0x3f;
          hi = byteAt data (i * 2 + 1) AND 0x3f
      in \<lparr> r = drop_bit 2 (lo AND 0x3c) * 17,
           g = (push_bit 2 (lo AND 0x03) OR drop_bit 4 (hi AND 0x30)) * 17,
           b = (hi AND 0x0f) * 17 \<rparr>)"

definition parseInstruction :: "nat \<Rightarrow> byte list \<Rightarrow> CdgInstruction option" where
  "parseInstruction inst data =
     (if inst = MEMORY_PRESET then
        Some (MemoryPreset (byteAt data 0 AND 0x0f) (byteAt data 1 AND 0x0f))
      else if inst = BORDER_PRESET then
        Some (BorderPreset (byteAt data 0 AND 0x0f))
      else if inst = TILE_BLOCK \<or> inst = TILE_BLOCK_XOR then
        Some (TileBlock (inst = TILE_BLOCK_XOR)
                (byteAt data 0 AND 0x0f) (byteAt data 1 AND 0x0f)
                (byteAt data 2 AND 0x1f) (byteAt data 3 AND 0x3f)
                (map (\<lambda>x. unat x AND 0x3f) (subarray data 4 16)))
      else if inst = SCROLL_PRESET \<or> inst = SCROLL_COPY then
        Some (Scroll (inst = SCROLL_COPY)
                (byteAt data 0 AND 0x0f)
                (drop_bit 4 (byteAt data 1 AND 0x30))
                (drop_bit 4 (byteAt data 2 AND 0x30))
                (byteAt data 1 AND 0x07) (byteAt data 2 AND 0x0f))
      else if inst = DEFINE_TRANSPARENT then
        Some (DefineTransparent (byteAt data 0 AND 0x0f))
      else if inst = LOAD_COLOR_TABLE_LO \<or> inst = LOAD_COLOR_TABLE_HI then
        Some (LoadColorTable (if inst = LOAD_COLOR_TABLE_HI then 8 else 0)
                (map (parseColor data) [0..<8]))
      else None)"

subsection \<open>Arithmetic of doubles\<close>

text \<open>
  The operators \<open>/\<close> and \<open>*\<close> of JavaScript give the exact quotient or product rounded to
  the nearest double, ties to the even significand. \<open>roundDouble\<close> is this rounding on
  the rationals: \<open>binade x\<close> is the exponent \<open>e\<close> with \<open>2^e \<le> |x| < 2^(e+1)\<close>, the doubles
  of that binade are the multiples of \<open>2^(e-52)\<close> (53 significant bits), and below
  \<open>2^(-1022)\<close> the spacing stays \<open>2^(-1074)\<close> (subnormal numbers). Overflow to \<open>Infinity\<close>
  is not modelled: the operands below are a packet number, 300 and 1000, and the results
  are far below \<open>2^1024\<close>.
\<close>

fun bitLength :: "nat \<Rightarrow> nat" where
  "bitLength n = (if n = 0 then 0 else Suc (bitLength (n div 2)))"

declare bitLength.simps [simp del]

definition binade :: "rat \<Rightarrow> int" where
  "binade x =
     (let (a, c) = quotient_of \<bar>x\<bar>;
          k = int (bitLength (nat a)) - int (bitLength (nat c))
      in if 2 powi k \<le> \<bar>x\<bar> then k else k - 1)"

definition roundHalfEven :: "rat \<Rightarrow> int" where
  "roundHalfEven q =
     (let n = \<lfloor>q\<rfloor>; f = q - of_int n
      in if f < 1 / 2 then n else if f > 1 / 2 then n + 1
         else if even n then n else n + 1)"

definition roundDouble :: "rat \<Rightarrow> rat" where
  "roundDouble x =
     (if x = 0 then 0
      else let e = max (binade x) (- 1022); ulp = 2 powi (e - 52)
           in sgn x * of_int (roundHalfEven (\<bar>x\<bar> / ulp)) * ulp)"

definition jsDiv :: "rat \<Rightarrow> rat \<Rightarrow> rat" where
  "jsDiv x y = roundDouble (x / y)"

definition jsMul :: "rat \<Rightarrow> rat \<Rightarrow> rat" where
  "jsMul x y = roundDouble (x * y)"

subsection \<open>The loop of the decoder\<close>

text \<open>
  The body of the loop of \<open>parseCdgFile\<close> for packet number \<open>i\<close>; \<open>acc\<close> is the array
  \<open>packets\<close> built so far. The time is \<open>(i / CDG_PACKETS_PER_SECOND) * 1000\<close>.
\<close>

definition parsePacket :: "byte list \<Rightarrow> nat \<Rightarrow> CdgPacket list \<Rightarrow> CdgPacket list" where
  "parsePacket buffer i acc =
     (let offset = i * CDG_PACKET_SIZE;
          packet = subarray buffer offset (offset + CDG_PACKET_SIZE);
          command = byteAt packet 0 AND 0x3f;
          inst = byteAt packet 1 AND 0x3f
      in if command \<noteq> 0x09 then acc
         else let t = jsMul (jsDiv (of_nat i) (of_nat CDG_PACKETS_PER_SECOND)) 1000;
                  data = subarray packet 4 20
              in case parseInstruction inst data of
                   Some parsed \<Rightarrow> acc @ [\<lparr> timeMs = t, instruction = Some parsed \<rparr>]
                 | None \<Rightarrow> acc)"

text \<open>
  \<open>parseCdgFile\<close>, from the contents of the file on (\<open>fs.readFileSync\<close> is outside the
  model; its failure is the \<open>None\<close> case of \<open>loadSong\<close> below).
\<close>

definition parseCdgFile :: "byte list \<Rightarrow> ParsedCdg" where
  "parseCdgFile buffer =
     (let numPackets = length buffer div CDG_PACKET_SIZE;
          duration = jsMul (jsDiv (of_nat numPackets) (of_nat CDG_PACKETS_PER_SECOND)) 1000
      in \<lparr> packets = fold (parsePacket buffer) [0..<numPackets] [],
           durationMs = duration \<rparr>)"


subsection \<open>The bit layout as the specification words it\<close>

text \<open>
  The specification describes the fields by their bit positions. It is written here with
  division and remainder on the value of the byte, independently of the masks and shifts
  of \<open>parseInstruction\<close>: \<open>lowBits n x\<close> is the low \<open>n\<close> bits of the byte \<open>x\<close>, and
  \<open>bitsFrom k n x\<close> the \<open>n\<close> bits of \<open>x\<close> from bit \<open>k\<close> up.
\<close>

definition lowBits :: "nat \<Rightarrow> byte \<Rightarrow> nat" where
  "lowBits n x = unat x mod 2 ^ n"

definition bitsFrom :: "nat \<Rightarrow> nat \<Rightarrow> byte \<Rightarrow> nat" where
  "bitsFrom k n x = (unat x div 2 ^ k) mod 2 ^ n"

text \<open>
  A colour-table entry: the two 6-bit bytes, the first one high, make 12 bits, which are
  three 4-bit channels (red high), each scaled by 17.
\<close>

definition layoutColor :: "byte \<Rightarrow> byte \<Rightarrow> CdgColor" where
  "layoutColor x y =
     (let packed = lowBits 6 x * 64 + lowBits 6 y
      in \<lparr> r = (packed div 256) * 17, g = (packed div 16 mod 16) * 17, b = (packed mod 16) * 17 \<rparr>)"

text \<open>
  The instruction that the specification's layout gives for an opcode and the 16 data
  bytes \<open>d\<close> (bytes 4 to 19 of the packet); \<open>None\<close> for an opcode outside the nine.
\<close>

definition layoutInstruction :: "nat \<Rightarrow> byte list \<Rightarrow> CdgInstruction option" where
  "layoutInstruction opc d =
     (if opc = 1 then Some (MemoryPreset (lowBits 4 (d ! 0)) (lowBits 4 (d ! 1)))
      else if opc = 2 then Some (BorderPreset (lowBits 4 (d ! 0)))
      else if opc = 6 \<or> opc = 38 then
        Some (TileBlock (opc = 38) (lowBits 4 (d ! 0)) (lowBits 4 (d ! 1))
                (lowBits 5 (d ! 2)) (lowBits 6 (d ! 3))
                (map (\<lambda>k. lowBits 6 (d ! k)) [4..<16]))
      else if opc = 20 \<or> opc = 24 then
        Some (Scroll (opc = 24) (lowBits 4 (d ! 0))
                (bitsFrom 4 2 (d ! 1)) (bitsFrom 4 2 (d ! 2))
                (lowBits 3 (d ! 1)) (lowBits 4 (d ! 2)))
      else if opc = 28 then Some (DefineTransparent (lowBits 4 (d ! 0)))
      else if opc = 30 \<or> opc = 31 then
        Some (LoadColorTable (if opc = 31 then 8 else 0)
                (map (\<lambda>i. layoutColor (d ! (2 * i)) (d ! (2 * i + 1))) [0..<8]))
      else None)"

section \<open>The renderer (class \<open>CdgRenderer\<close>)\<close>

text \<open>
  \<open>pixels\<close> is a \<open>Uint8Array\<close>: a store of a number keeps its low 8 bits (\<open>toUint8\<close>), a
  store past the end is ignored (as \<open>xs[i := v]\<close> is) and a read past the end gives
  \<open>undefined\<close>. \<open>palette\<close> is a JavaScript array, whose entries may be \<open>undefined\<close>
  (\<open>None\<close>). \<open>transparentColor\<close> starts at \<open>-1\<close>: an \<open>int\<close>.
\<close>

record CdgRenderer =
  pixels :: "byte list"
  palette :: "CdgColor option list"
  transparentColor :: int
  borderColor :: nat
  hOffset :: nat
  vOffset :: nat

datatype error = TypeError | ReadError

definition toUint8 :: "nat \<Rightarrow> byte" where
  "toUint8 n = of_nat n"

text \<open>A store into a \<open>Uint8ClampedArray\<close>.\<close>

definition toUint8Clamped :: "nat \<Rightarrow> byte" where
  "toUint8Clamped n = of_nat (min n 255)"

text \<open>\<open>xs[k]\<close> on an array: \<open>None\<close> is \<open>undefined\<close>.\<close>

definition elemAt :: "'a list \<Rightarrow> nat \<Rightarrow> 'a option" where
  "elemAt xs k = (if k < length xs then Some (xs ! k) else None)"

text \<open>\<open>typed[k]\<close> stored into a typed array or used as an operand: \<open>undefined\<close> counts as 0.\<close>

definition pixelAt :: "byte list \<Rightarrow> nat \<Rightarrow> byte" where
  "pixelAt ps k = (if k < length ps then ps ! k else 0)"

text \<open>\<open>tile.pixels[row]\<close> as the operand of \<open>>>\<close>: \<open>undefined\<close> counts as 0.\<close>

definition numberAt :: "nat list \<Rightarrow> nat \<Rightarrow> nat" where
  "numberAt xs k = (if k < length xs then xs ! k else 0)"

text \<open>\<open>palette[k]\<close> and \<open>palette[k] = v\<close>: a store past the end extends the array with holes.\<close>

definition arrayGet :: "'a option list \<Rightarrow> nat \<Rightarrow> 'a option" where
  "arrayGet xs k = (if k < length xs then xs ! k else None)"

definition arraySet :: "'a option list \<Rightarrow> nat \<Rightarrow> 'a option \<Rightarrow> 'a option list" where
  "arraySet xs k v =
     (if k < length xs then xs[k := v] else xs @ replicate (k - length xs) None @ [v])"

text \<open>The operator \<open>%\<close> of JavaScript on integers: the sign of the dividend.\<close>

definition jsRem :: "int \<Rightarrow> int \<Rightarrow> int" where
  "jsRem a m = sgn a * (\<bar>a\<bar> mod \<bar>m\<bar>)"

definition newPalette :: "CdgColor option list" where
  "newPalette = replicate CDG_COLORS (Some \<lparr> r = 0, g = 0, b = 0 \<rparr>)"

text \<open>The constructor.\<close>

definition newCdgRenderer :: CdgRenderer where
  "newCdgRenderer =
     \<lparr> pixels = replicate (CDG_WIDTH * CDG_HEIGHT) 0, palette = newPalette,
       transparentColor = - 1, borderColor = 0, hOffset = 0, vOffset = 0 \<rparr>"

definition reset :: "CdgRenderer \<Rightarrow> CdgRenderer" where
  "reset rn =
     rn\<lparr> pixels := replicate (length (pixels rn)) 0, palette := newPalette,
         transparentColor := - 1, borderColor := 0, hOffset := 0, vOffset := 0 \<rparr>"

text \<open>
  The four loops of \<open>drawBorder\<close> have one shape: for \<open>y\<close> from \<open>y0\<close> below \<open>y1\<close>, for
  \<open>x\<close> from \<open>x0\<close> below \<open>x1\<close>, \<open>pixels[y * CDG_WIDTH + x] = color\<close>.
\<close>

definition fillLoop :: "nat \<Rightarrow> nat \<Rightarrow> nat \<Rightarrow> nat \<Rightarrow> nat \<Rightarrow> byte list \<Rightarrow> byte list" where
  "fillLoop y0 y1 x0 x1 color ps =
     fold (\<lambda>y. fold (\<lambda>x px. px[y * CDG_WIDTH + x := toUint8 color]) [x0..<x1]) [y0..<y1] ps"

definition drawBorder :: "nat \<Rightarrow> CdgRenderer \<Rightarrow> CdgRenderer" where
  "drawBorder color rn =
     (let top = fillLoop 0 CDG_BORDER_Y 0 CDG_WIDTH color (pixels rn);
          bottom = fillLoop (CDG_HEIGHT - CDG_BORDER_Y) CDG_HEIGHT 0 CDG_WIDTH color top;
          left = fillLoop CDG_BORDER_Y (CDG_HEIGHT - CDG_BORDER_Y) 0 CDG_BORDER_X color bottom;
          right = fillLoop CDG_BORDER_Y (CDG_HEIGHT - CDG_BORDER_Y)
                    (CDG_WIDTH - CDG_BORDER_X) CDG_WIDTH color left
      in rn\<lparr> pixels := right \<rparr>)"

text \<open>The body of the inner loop of \<open>drawTile\<close>, for \<open>row\<close> and \<open>col\<close> of the tile.\<close>

definition drawTilePixel ::
  "bool \<Rightarrow> nat \<Rightarrow> nat \<Rightarrow> nat list \<Rightarrow> nat \<Rightarrow> nat \<Rightarrow> nat \<Rightarrow> nat \<Rightarrow> byte list \<Rightarrow> byte list" where
  "drawTilePixel isXor color0 color1 tilePixels startX startY row col px =
     (let pixelData = numberAt tilePixels row;
          bit = drop_bit (5 - col) pixelData AND 1;
          color = (if bit \<noteq> 0 then color1 else color0);
          x = startX + col;
          y = startY + row;
          idx = y * CDG_WIDTH + x
      in if isXor then px[idx := pixelAt px idx XOR toUint8 color]
         else px[idx := toUint8 color])"

text \<open>\<open>drawTile\<close>, on the fields \<open>xor color0 color1 row column pixels\<close> of the tile.\<close>

definition drawTile ::
  "bool \<Rightarrow> nat \<Rightarrow> nat \<Rightarrow> nat \<Rightarrow> nat \<Rightarrow> nat list \<Rightarrow> CdgRenderer \<Rightarrow> CdgRenderer" where
  "drawTile isXor color0 color1 tileRow tileColumn tilePixels rn =
     (let startX = tileColumn * CDG_TILE_WIDTH;
          startY = tileRow * CDG_TILE_HEIGHT
      in if startX + CDG_TILE_WIDTH > CDG_WIDTH \<or> startY + CDG_TILE_HEIGHT > CDG_HEIGHT then rn
         else rn\<lparr> pixels :=
                fold (\<lambda>row. fold (drawTilePixel isXor color0 color1 tilePixels startX startY row)
                                [0..<CDG_TILE_WIDTH])
                     [0..<CDG_TILE_HEIGHT] (pixels rn) \<rparr>)"

text \<open>
  The body of the inner loop of \<open>scrollDisplay\<close>: \<open>old\<close> is \<open>this.pixels\<close>, \<open>np\<close> is
  \<open>newPixels\<close>.
\<close>

definition scrollPixel ::
  "bool \<Rightarrow> nat \<Rightarrow> int \<Rightarrow> int \<Rightarrow> byte list \<Rightarrow> nat \<Rightarrow> nat \<Rightarrow> byte list \<Rightarrow> byte list" where
  "scrollPixel copy color hDir vDir old y x np =
     (let srcX = int x + hDir;
          srcY = int y + vDir
      in if copy then
           (let srcX' = jsRem (jsRem srcX (int CDG_WIDTH) + int CDG_WIDTH) (int CDG_WIDTH);
                srcY' = jsRem (jsRem srcY (int CDG_HEIGHT) + int CDG_HEIGHT) (int CDG_HEIGHT)
            in np[y * CDG_WIDTH + x := pixelAt old (nat (srcY' * int CDG_WIDTH + srcX'))])
         else if srcX < 0 \<or> srcX \<ge> int CDG_WIDTH \<or> srcY < 0 \<or> srcY \<ge> int CDG_HEIGHT then
           np[y * CDG_WIDTH + x := toUint8 color]
         else np[y * CDG_WIDTH + x := pixelAt old (nat (srcY * int CDG_WIDTH + srcX))])"

text \<open>\<open>scrollDisplay\<close>, on the fields \<open>copy color hScroll vScroll\<close> of the instruction.\<close>

definition scrollDisplay :: "bool \<Rightarrow> nat \<Rightarrow> nat \<Rightarrow> nat \<Rightarrow> CdgRenderer \<Rightarrow> CdgRenderer" where
  "scrollDisplay copy color hScroll vScroll rn =
     (let newPixels = replicate (CDG_WIDTH * CDG_HEIGHT) (0::byte);
          hDir = (if hScroll = 2 then - int CDG_TILE_WIDTH
                  else if hScroll = 1 then int CDG_TILE_WIDTH else 0);
          vDir = (if vScroll = 2 then - int CDG_TILE_HEIGHT
                  else if vScroll = 1 then int CDG_TILE_HEIGHT else 0)
      in rn\<lparr> pixels :=
             fold (\<lambda>y. fold (scrollPixel copy color hDir vDir (pixels rn) y) [0..<CDG_WIDTH])
                  [0..<CDG_HEIGHT] newPixels \<rparr>)"

fun applyInstruction :: "CdgRenderer \<Rightarrow> CdgInstruction \<Rightarrow> CdgRenderer" where
  "applyInstruction rn (MemoryPreset color repeat) =
     (if repeat = 0 then rn\<lparr> pixels := replicate (length (pixels rn)) (toUint8 color) \<rparr> else rn)"
| "applyInstruction rn (BorderPreset color) = drawBorder color (rn\<lparr> borderColor := color \<rparr>)"
| "applyInstruction rn (TileBlock isXor color0 color1 tileRow tileColumn tilePixels) =
     drawTile isXor color0 color1 tileRow tileColumn tilePixels rn"
| "applyInstruction rn (Scroll copy color hScroll vScroll hOff vOff) =
     (let rn1 = rn\<lparr> hOffset := hOff, vOffset := vOff \<rparr>
      in if hScroll \<noteq> 0 \<or> vScroll \<noteq> 0 then scrollDisplay copy color hScroll vScroll rn1 else rn1)"
| "applyInstruction rn (DefineTransparent color) = rn\<lparr> transparentColor := int color \<rparr>"
| "applyInstruction rn (LoadColorTable off colors) =
     rn\<lparr> palette := fold (\<lambda>i pal. arraySet pal (off + i) (elemAt colors i)) [0..<8] (palette rn) \<rparr>"

text \<open>
  The body of the inner loop of \<open>getVisibleRgbaFrame\<close>. A read of \<open>pixels\<close> past the end
  gives \<open>undefined\<close>, \<open>palette[undefined]\<close> is \<open>undefined\<close>, and so is a hole of the
  palette; \<open>color.r\<close> then throws a \<open>TypeError\<close>.
\<close>

definition visiblePixel :: "CdgRenderer \<Rightarrow> nat \<Rightarrow> nat \<Rightarrow> byte list \<Rightarrow> error + byte list" where
  "visiblePixel rn y x rgba =
     (let srcX = x + CDG_BORDER_X + hOffset rn;
          srcY = y + CDG_BORDER_Y + vOffset rn;
          srcIdx = srcY * CDG_WIDTH + srcX;
          dstIdx = (y * CDG_VISIBLE_WIDTH + x) * 4
      in case elemAt (pixels rn) srcIdx of
           None \<Rightarrow> Inl TypeError
         | Some colorIdx \<Rightarrow>
             (case arrayGet (palette rn) (unat colorIdx) of
                None \<Rightarrow> Inl TypeError
              | Some color \<Rightarrow>
                  Inr (rgba[dstIdx := toUint8Clamped (r color),
                            dstIdx + 1 := toUint8Clamped (g color),
                            dstIdx + 2 := toUint8Clamped (b color),
                            dstIdx + 3 := (if int (unat colorIdx) = transparentColor rn
                                           then 0 else 255)])))"

definition getVisibleRgbaFrame :: "CdgRenderer \<Rightarrow> error + byte list" where
  "getVisibleRgbaFrame rn =
     fold (\<lambda>y. fold (\<lambda>x acc. case acc of Inl e \<Rightarrow> Inl e | Inr rgba \<Rightarrow> visiblePixel rn y x rgba)
                   [0..<CDG_VISIBLE_WIDTH])
          [0..<CDG_VISIBLE_HEIGHT]
          (Inr (replicate (CDG_VISIBLE_WIDTH * CDG_VISIBLE_HEIGHT * 4) 0))"

section \<open>The player (class \<open>CdgPlayer\<close>)\<close>

text \<open>
  The player is a record of the fields of the class, passed through every method. The
  events it emits are appended to \<open>emitted\<close>, in the order of the calls of \<open>emit\<close>
  (listeners are not modelled). \<open>animationFrame\<close> says whether a timeout is pending.
  Each reading of \<open>Date.now()\<close> is a parameter of the method that reads it. The sums
  and differences of times that the player computes (\<open>now - startTime\<close>,
  \<open>currentTime - 1000\<close>) are taken as exact: only the decoder's division and
  multiplication are rounded.
\<close>

record CdgPlayerState =
  playing :: bool
  paused :: bool
  currentTime :: rat
  duration :: rat
  title :: string
  singerName :: string
  songId :: int
  fileType :: string
  audioPath :: "string option"

record CdgFrameData =
  width :: nat
  height :: nat
  rgba :: "byte list"
  timestamp :: rat

datatype CdgEvent =
    PlayEvent CdgPlayerState
  | PauseEvent CdgPlayerState
  | StopEvent CdgPlayerState
  | SeekEvent rat CdgPlayerState
  | FrameEvent CdgFrameData
  | UpdateEvent CdgPlayerState
  | EndedEvent

record CdgPlayer =
  cdgData :: "ParsedCdg option"
  renderer :: CdgRenderer
  state :: CdgPlayerState
  animationFrame :: bool
  lastUpdateTime :: rat
  packetIndex :: nat
  startTime :: rat
  pauseTime :: rat
  emitted :: "CdgEvent list"

text \<open>
  A method either returns or throws; the fields it has changed before it throws stay
  changed.
\<close>

datatype outcome = Done CdgPlayer | Thrown error CdgPlayer

fun playerOf :: "outcome \<Rightarrow> CdgPlayer" where
  "playerOf (Done p) = p"
| "playerOf (Thrown e p) = p"

definition newCdgPlayer :: CdgPlayer where
  "newCdgPlayer =
     \<lparr> cdgData = None, renderer = newCdgRenderer,
       state = \<lparr> playing = False, paused = False, currentTime = 0, duration = 0, title = [],
                 singerName = [], songId = 0, fileType = ''cdg'', audioPath = None \<rparr>,
       animationFrame = False, lastUpdateTime = 0, packetIndex = 0, startTime = 0,
       pauseTime = 0, emitted = [] \<rparr>"

definition emit :: "CdgEvent \<Rightarrow> CdgPlayer \<Rightarrow> CdgPlayer" where
  "emit e p = p\<lparr> emitted := emitted p @ [e] \<rparr>"

definition getState :: "CdgPlayer \<Rightarrow> CdgPlayerState" where
  "getState p = state p"

definition getCurrentFrame :: "CdgPlayer \<Rightarrow> error + CdgFrameData option" where
  "getCurrentFrame p =
     (if cdgData p = None then Inr None
      else case getVisibleRgbaFrame (renderer p) of
             Inl e \<Rightarrow> Inl e
           | Inr px \<Rightarrow> Inr (Some \<lparr> width = CDG_VISIBLE_WIDTH, height = CDG_VISIBLE_HEIGHT,
                                   rgba = px, timestamp = currentTime (state p) \<rparr>))"

definition emitFrame :: "CdgPlayer \<Rightarrow> outcome" where
  "emitFrame p =
     (case getCurrentFrame p of
        Inl e \<Rightarrow> Thrown e p
      | Inr None \<Rightarrow> Done p
      | Inr (Some frame) \<Rightarrow> Done (emit (FrameEvent frame) p))"

text \<open>
  What the loops below do with one packet: \<open>if (packet.instruction)\<close>,
  \<open>this.renderer.applyInstruction(packet.instruction)\<close>.
\<close>

definition applyPacket :: "CdgPacket \<Rightarrow> CdgRenderer \<Rightarrow> CdgRenderer" where
  "applyPacket pk rn =
     (case instruction pk of Some inst \<Rightarrow> applyInstruction rn inst | None \<Rightarrow> rn)"

text \<open>
  The \<open>while\<close> loop of \<open>applyPacketsUpTo\<close> and of \<open>applyPacketsFromTo\<close> (the two loops are
  the same), over the packets \<open>pkts\<close> of the loaded file.
\<close>

function replayLoop :: "CdgPacket list \<Rightarrow> rat \<Rightarrow> CdgPlayer \<Rightarrow> CdgPlayer" where
  "replayLoop pkts t p =
     (if packetIndex p < length pkts \<and> timeMs (pkts ! packetIndex p) \<le> t then
        replayLoop pkts t
          (p\<lparr> renderer := applyPacket (pkts ! packetIndex p) (renderer p),
              packetIndex := packetIndex p + 1 \<rparr>)
      else p)"
  by pat_completeness auto
termination
  by (relation "measure (\<lambda>(pkts, t, p). length pkts - packetIndex p)") auto

declare replayLoop.simps [simp del]

definition applyPacketsUpTo :: "rat \<Rightarrow> CdgPlayer \<Rightarrow> CdgPlayer" where
  "applyPacketsUpTo t p =
     (case cdgData p of
        None \<Rightarrow> p
      | Some d \<Rightarrow>
          (let p1 = replayLoop (packets d) t p
           in p1\<lparr> state := (state p1)\<lparr> currentTime := t \<rparr> \<rparr>))"

definition applyPacketsFromTo :: "rat \<Rightarrow> rat \<Rightarrow> CdgPlayer \<Rightarrow> CdgPlayer" where
  "applyPacketsFromTo fromMs toMs p =
     (case cdgData p of
        None \<Rightarrow> p
      | Some d \<Rightarrow> replayLoop (packets d) toMs p)"

definition stopAnimationLoop :: "CdgPlayer \<Rightarrow> CdgPlayer" where
  "stopAnimationLoop p = (if animationFrame p then p\<lparr> animationFrame := False \<rparr> else p)"

definition stop :: "CdgPlayer \<Rightarrow> CdgPlayer" where
  "stop p =
     (let p1 = stopAnimationLoop p;
          p2 = (if cdgData p1 \<noteq> None
                then p1\<lparr> renderer := reset (renderer p1), packetIndex := 0 \<rparr> else p1);
          p3 = p2\<lparr> state := (state p2)\<lparr> playing := False, paused := False, currentTime := 0 \<rparr> \<rparr>
      in emit (StopEvent (getState p3)) p3)"

definition pause :: "rat \<Rightarrow> CdgPlayer \<Rightarrow> CdgPlayer" where
  "pause now p =
     (if \<not> playing (state p) \<or> paused (state p) then p
      else let p1 = p\<lparr> state := (state p)\<lparr> paused := True \<rparr>, pauseTime := now \<rparr>;
               p2 = stopAnimationLoop p1
           in emit (PauseEvent (getState p2)) p2)"

definition seek :: "rat \<Rightarrow> rat \<Rightarrow> CdgPlayer \<Rightarrow> outcome" where
  "seek now timeMs0 p =
     (if cdgData p = None then Done p
      else let t = max 0 (min timeMs0 (duration (state p)));
               p1 = p\<lparr> renderer := reset (renderer p), packetIndex := 0 \<rparr>;
               p2 = applyPacketsUpTo t p1;
               p3 = p2\<lparr> state := (state p2)\<lparr> currentTime := t \<rparr> \<rparr>;
               p4 = (if playing (state p3) \<and> \<not> paused (state p3)
                     then p3\<lparr> startTime := now - t \<rparr> else p3)
           in case emitFrame p4 of
                Thrown e q \<Rightarrow> Thrown e q
              | Done p5 \<Rightarrow> Done (emit (SeekEvent t (getState p5)) p5))"

text \<open>
  The end of \<open>syncToAudioTime\<close>, after the \<open>if\<close> that replays or seeks: the store of
  \<open>currentTime\<close> and the check for the end of the song.
\<close>

definition syncFinish :: "rat \<Rightarrow> CdgPlayer \<Rightarrow> outcome" where
  "syncFinish audioTimeMs p =
     (let p1 = p\<lparr> state := (state p)\<lparr> currentTime := audioTimeMs \<rparr> \<rparr>
      in if audioTimeMs \<ge> duration (state p1) then Done (emit EndedEvent (stop p1))
         else Done p1)"

definition syncToAudioTime :: "rat \<Rightarrow> rat \<Rightarrow> CdgPlayer \<Rightarrow> outcome" where
  "syncToAudioTime now audioTimeMs p =
     (if cdgData p = None \<or> \<not> playing (state p) \<or> paused (state p) then Done p
      else if audioTimeMs > currentTime (state p) then
        syncFinish audioTimeMs (applyPacketsFromTo (currentTime (state p)) audioTimeMs p)
      else if audioTimeMs < currentTime (state p) - 1000 then seek now audioTimeMs p
      else syncFinish audioTimeMs p)"

text \<open>
  The callback \<open>update\<close> of \<open>startAnimationLoop\<close>: one tick of the free-running loop, at
  the reading \<open>now\<close> of the clock.
\<close>

definition update :: "rat \<Rightarrow> CdgPlayer \<Rightarrow> outcome" where
  "update now p =
     (if \<not> playing (state p) \<or> paused (state p) then Done p
      else let t = now - startTime p;
               p1 = applyPacketsFromTo (currentTime (state p)) t p;
               p2 = p1\<lparr> state := (state p1)\<lparr> currentTime := t \<rparr> \<rparr>
           in case emitFrame p2 of
                Thrown e q \<Rightarrow> Thrown e q
              | Done p3 \<Rightarrow>
                  (let p4 = (if now - lastUpdateTime p3 > 100
                             then (emit (UpdateEvent (getState p3)) p3)\<lparr> lastUpdateTime := now \<rparr>
                             else p3)
                   in if t \<ge> duration (state p4) then Done (emit EndedEvent (stop p4))
                      else Done (p4\<lparr> animationFrame := True \<rparr>)))"

definition startAnimationLoop :: "rat \<Rightarrow> CdgPlayer \<Rightarrow> outcome" where
  "startAnimationLoop now p = update now (stopAnimationLoop p)"

text \<open>\<open>play\<close> reads the clock three times: \<open>now1\<close>, \<open>now2\<close> and, in \<open>update\<close>, \<open>now3\<close>.\<close>

definition play :: "rat \<Rightarrow> rat \<Rightarrow> rat \<Rightarrow> CdgPlayer \<Rightarrow> outcome" where
  "play now1 now2 now3 p =
     (if cdgData p = None then Done p
      else if playing (state p) \<and> \<not> paused (state p) then Done p
      else let p1 = (if paused (state p)
                     then p\<lparr> startTime := startTime p + (now1 - pauseTime p) \<rparr>
                     else p\<lparr> startTime := now1 \<rparr>);
               p2 = p1\<lparr> state := (state p1)\<lparr> playing := True, paused := False \<rparr>,
                       lastUpdateTime := now2 \<rparr>
           in case startAnimationLoop now3 p2 of
                Thrown e q \<Rightarrow> Thrown e q
              | Done p3 \<Rightarrow> Done (emit (PlayEvent (getState p3)) p3))"

text \<open>
  \<open>loadSong\<close>; \<open>file\<close> is what \<open>fs.readFileSync\<close> gives for \<open>cdgPath\<close>, \<open>None\<close> when it
  throws.
\<close>

definition loadSong ::
  "byte list option \<Rightarrow> string \<Rightarrow> string \<Rightarrow> string \<Rightarrow> int \<Rightarrow> CdgPlayer \<Rightarrow> outcome" where
  "loadSong file audio songTitle singer sid p =
     (let p0 = stop p
      in case file of
           None \<Rightarrow> Thrown ReadError p0
         | Some buffer \<Rightarrow>
             (let d = parseCdgFile buffer;
                  p1 = p0\<lparr> cdgData := Some d \<rparr>;
                  p2 = p1\<lparr> renderer := reset (renderer p1), packetIndex := 0 \<rparr>;
                  p3 = p2\<lparr> state := \<lparr> playing = False, paused = False, currentTime = 0,
                                       duration = durationMs d, title = songTitle,
                                       singerName = singer, songId = sid, fileType = ''cdg'',
                                       audioPath = Some audio \<rparr> \<rparr>
              in emitFrame (applyPacketsUpTo 0 p3)))"

section \<open>Notions that the properties are stated with\<close>

text \<open>
  Nothing below is code of the repository: these are the invariants, the reference replay
  and the concrete inputs that the theorems speak about, and shorthands for parts of loop
  bodies.
\<close>

text \<open>
  The colour that the inner loop of \<open>drawTile\<close> picks for \<open>row\<close> and \<open>col\<close> of the tile, as
  it is stored: \<open>color1\<close> where bit \<open>5 - col\<close> of the pixel row is set, else \<open>color0\<close>.
\<close>

definition tileColor :: "nat \<Rightarrow> nat \<Rightarrow> nat list \<Rightarrow> nat \<Rightarrow> nat \<Rightarrow> byte" where
  "tileColor color0 color1 tilePixels row col =
     toUint8 (if drop_bit (5 - col) (numberAt tilePixels row) AND 1 \<noteq> 0 then color1 else color0)"

text \<open>
  The invariant of the grid (every cell holds a value in 0..15), and the colour fields of
  an instruction being palette indices.
\<close>

definition cellsInRange :: "byte list \<Rightarrow> bool" where
  "cellsInRange ps = (\<forall>p \<in> set ps. unat p < 16)"

fun colorsInRange :: "CdgInstruction \<Rightarrow> bool" where
  "colorsInRange (MemoryPreset color repeat) = (color < 16)"
| "colorsInRange (BorderPreset color) = (color < 16)"
| "colorsInRange (TileBlock isXor color0 color1 tileRow tileColumn tilePixels) = (color0 < 16 \<and> color1 < 16)"
| "colorsInRange (Scroll copy color hScroll vScroll hOff vOff) = (color < 16)"
| "colorsInRange (DefineTransparent color) = (color < 16)"
| "colorsInRange (LoadColorTable off colors) = True"

text \<open>
  The four bytes that the body of the loop of \<open>getVisibleRgbaFrame\<close> stores for the
  cell \<open>(x, y)\<close> of the visible frame; \<open>None\<close> when the body throws.
\<close>

definition visibleCell :: "CdgRenderer \<Rightarrow> nat \<Rightarrow> nat \<Rightarrow> byte list option" where
  "visibleCell rn y x =
     (case elemAt (pixels rn) ((y + CDG_BORDER_Y + vOffset rn) * CDG_WIDTH + (x + CDG_BORDER_X + hOffset rn)) of
        None \<Rightarrow> None
      | Some colorIdx \<Rightarrow>
          (case arrayGet (palette rn) (unat colorIdx) of
             None \<Rightarrow> None
           | Some color \<Rightarrow>
               Some [toUint8Clamped (r color), toUint8Clamped (g color), toUint8Clamped (b color),
                     if int (unat colorIdx) = transparentColor rn then 0 else 255]))"

text \<open>The two loops of \<open>getVisibleRgbaFrame\<close> as one loop over the cells, row by row.\<close>

definition frameStep :: "CdgRenderer \<Rightarrow> nat \<times> nat \<Rightarrow> error + byte list \<Rightarrow> error + byte list" where
  "frameStep rn = (\<lambda>(y, x) acc. case acc of Inl e \<Rightarrow> Inl e | Inr out \<Rightarrow> visiblePixel rn y x out)"

text \<open>
  The initial state of the renderer in the words of the specification: a grid of 300 by
  216 cells, a palette of 16 entries, all black, no transparent index, and both viewport
  offsets 0. It is written out here, with neither \<open>reset\<close> nor the constructor of the
  code.
\<close>

definition initialRenderer :: CdgRenderer where
  "initialRenderer =
     \<lparr> pixels = replicate (300 * 216) 0,
       palette = replicate 16 (Some \<lparr> r = 0, g = 0, b = 0 \<rparr>),
       transparentColor = - 1, borderColor = 0, hOffset = 0, vOffset = 0 \<rparr>"

text \<open>
  The replay that the specification compares \<open>seek\<close> with: start from the initial state,
  then apply, in the order of the file, every decoded instruction whose timestamp is at
  most \<open>t\<close>. No state of the player enters it.
\<close>

definition replayFromStart :: "ParsedCdg \<Rightarrow> rat \<Rightarrow> CdgRenderer" where
  "replayFromStart d t =
     fold applyPacket (filter (\<lambda>pk. timeMs pk \<le> t) (packets d)) initialRenderer"

text \<open>
  A sequence of calls of \<open>syncToAudioTime\<close>, each with its reading of the clock and its
  audio time; a call that throws leaves the player as it was at the throw, and the next
  call goes on from there.
\<close>

fun syncAll :: "(rat \<times> rat) list \<Rightarrow> CdgPlayer \<Rightarrow> CdgPlayer" where
  "syncAll [] p = p"
| "syncAll ((now, t) # calls) p = syncAll calls (playerOf (syncToAudioTime now t p))"

text \<open>
  The cursor and the renderer are in step with \<open>currentTime\<close>: the time is not negative,
  the cursor stands after exactly the packets with a timestamp up to it, and the renderer
  holds the replay of exactly those packets on its own grid reset. This is the state after \<open>loadSong\<close>, after
  \<open>seek\<close> and after a \<open>syncToAudioTime\<close> that moved forward.
\<close>

definition inStep :: "CdgPlayer \<Rightarrow> bool" where
  "inStep p =
     (case cdgData p of
        None \<Rightarrow> False
      | Some d \<Rightarrow>
          0 \<le> currentTime (state p)
          \<and> packetIndex p = length (filter (\<lambda>pk. timeMs pk \<le> currentTime (state p)) (packets d))
          \<and> renderer p
              = fold applyPacket (filter (\<lambda>pk. timeMs pk \<le> currentTime (state p)) (packets d))
                  (reset (renderer p)))"

text \<open>
  A file of two packets: a memory preset of colour 0 at time 0, and a
  define-transparent of colour 0 at the time of packet 1, \<open>(1 / 300) * 1000\<close> in doubles,
  which is 3.3333333333333335 ms.
\<close>

definition twoPacketFile :: "byte list" where
  "twoPacketFile = [9, 1, 0, 0] @ replicate 20 0 @ [9, 28, 0, 0] @ replicate 20 0"

text \<open>
  What a forward \<open>syncToAudioTime\<close> keeps, for the file \<open>d\<close>, its duration and the
  renderer \<open>base\<close> that the replay started from: the clock is playing and not paused, and
  the cursor and the renderer stand after the packets with a timestamp up to \<open>c\<close>, the
  current time.
\<close>

definition syncInv :: "ParsedCdg \<Rightarrow> rat \<Rightarrow> CdgRenderer \<Rightarrow> CdgPlayer \<Rightarrow> rat \<Rightarrow> bool" where
  "syncInv d dur base q c =
     (cdgData q = Some d \<and> playing (state q) \<and> \<not> paused (state q)
      \<and> duration (state q) = dur \<and> currentTime (state q) = c
      \<and> packetIndex q = length (takeWhile (\<lambda>pk. timeMs pk \<le> c) (packets d))
      \<and> renderer q = fold applyPacket (takeWhile (\<lambda>pk. timeMs pk \<le> c) (packets d)) base)"

text \<open>
  The player after \<open>loadSong\<close> of \<open>twoPacketFile\<close> and \<open>play\<close>, with every reading of the
  clock equal to 0; then after \<open>syncToAudioTime(5)\<close>, and after \<open>syncToAudioTime(1)\<close>
  instead.
\<close>

definition loadedTwoPackets :: CdgPlayer where
  "loadedTwoPackets =
     playerOf (play 0 0 0
       (playerOf (loadSong (Some twoPacketFile) ''song.mp3'' ''Song'' ''Singer'' 1 newCdgPlayer)))"

definition playingAtFive :: CdgPlayer where
  "playingAtFive = playerOf (syncToAudioTime 5 5 loadedTwoPackets)"

definition playingAtOne :: CdgPlayer where
  "playingAtOne = playerOf (syncToAudioTime 1 1 loadedTwoPackets)"

text \<open>A player with no song loaded is not playing.\<close>

definition idleIfUnloaded :: "CdgPlayer \<Rightarrow> bool" where
  "idleIfUnloaded p = (cdgData p \<noteq> None \<or> \<not> playing (state p))"

section \<open>Properties of the decoder\<close>

subsection \<open>Rounding to a double\<close>

text \<open>
  \<open>binade\<close> finds the binade (\<open>binade_bounds\<close>); the rounding is monotone
  (\<open>roundDouble_mono\<close>), has a relative error of at most \<open>2^(-53)\<close>
  (\<open>roundDouble_error\<close>), and is computed for a given value from its binade and the
  nearest multiple of the spacing (\<open>roundDouble_eqI\<close>).
\<close>

lemma bitLength_0: "bitLength 0 = 0"
  by (simp add: bitLength.simps[of 0])

lemma bitLength_pos: "0 < n \<Longrightarrow> bitLength n = Suc (bitLength (n div 2))"
  by (simp add: bitLength.simps[of n])

lemma bitLength_bounds:
  "0 < n \<Longrightarrow> 2 ^ (bitLength n - 1) \<le> n \<and> n < 2 ^ bitLength n"
proof (induction n rule: less_induct)
  case (less n)
  have bl: "bitLength n = Suc (bitLength (n div 2))" using less.prems by (rule bitLength_pos)
  show ?case
  proof (cases "n div 2 = 0")
    case True
    with less.prems have "n = 1" by (simp add: div_eq_0_iff)
    then show ?thesis using bl by (simp add: bitLength_0)
  next
    case False
    then have pos: "0 < n div 2" by simp
    have lt: "n div 2 < n" using less.prems by simp
    from less.IH[OF lt pos] have ih: "2 ^ (bitLength (n div 2) - 1) \<le> n div 2"
        "n div 2 < 2 ^ bitLength (n div 2)" by simp_all
    obtain j where j: "bitLength (n div 2) = Suc j"
      using bitLength_pos[OF pos] by simp
    have "(2::nat) * 2 ^ j \<le> 2 * (n div 2)" using ih(1) unfolding j by simp
    also have "\<dots> \<le> n" by simp
    finally have lo: "2 ^ (bitLength n - 1) \<le> n" unfolding bl j by simp
    have "Suc (n div 2) \<le> 2 ^ Suc j" using ih(2) unfolding j by simp
    then have "2 * Suc (n div 2) \<le> 2 * 2 ^ Suc j" by simp
    moreover have "n < 2 * Suc (n div 2)" by simp
    ultimately have "n < 2 ^ bitLength n" unfolding bl j by simp
    with lo show ?thesis by simp
  qed
qed


lemma pow2_less_iff: "(2::rat) powi i < 2 powi j \<longleftrightarrow> i < j"
proof
  assume l: "(2::rat) powi i < 2 powi j"
  show "i < j"
  proof (rule ccontr)
    assume "\<not> i < j"
    then have "j \<le> i" by simp
    then have "(2::rat) powi j \<le> 2 powi i" by (intro power_int_increasing) simp_all
    with l show False by simp
  qed
next
  assume "i < j"
  then show "(2::rat) powi i < 2 powi j" by (intro power_int_strict_increasing) simp_all
qed

lemma pow2_le_iff: "(2::rat) powi i \<le> 2 powi j \<longleftrightarrow> i \<le> j"
  using pow2_less_iff[of j i] by (simp add: not_less[symmetric])

lemma binade_bounds:
  assumes "x \<noteq> 0"
  shows "2 powi binade x \<le> \<bar>x\<bar> \<and> \<bar>x\<bar> < 2 powi (binade x + 1)"
proof -
  obtain a c where q: "quotient_of \<bar>x\<bar> = (a, c)" by (cases "quotient_of \<bar>x\<bar>")
  have c: "0 < c" using quotient_of_denom_pos[OF q] .
  have x: "\<bar>x\<bar> = of_int a / of_int c" using quotient_of_div[OF q] .
  have "0 < \<bar>x\<bar>" using assms by simp
  then have a: "0 < a" using c unfolding x by (simp add: zero_less_divide_iff)
  define la lc where "la = bitLength (nat a)" and "lc = bitLength (nat c)"
  define k where "k = int la - int lc"
  from bitLength_bounds[of "nat a"] a
  have ba: "2 ^ (la - 1) \<le> nat a" "nat a < 2 ^ la" by (simp_all add: la_def)
  from bitLength_bounds[of "nat c"] c
  have bc: "2 ^ (lc - 1) \<le> nat c" "nat c < 2 ^ lc" by (simp_all add: lc_def)
  have la: "0 < la" using ba(2) a by (cases la) simp_all
  have lc: "0 < lc" using bc(2) c by (cases lc) simp_all
  have ra: "(2::rat) ^ (la - 1) \<le> of_int a" "(of_int a :: rat) < 2 ^ la"
  proof -
    have "(of_nat (2 ^ (la - 1)) :: rat) \<le> of_nat (nat a)" using ba(1) by (simp only: of_nat_le_iff)
    then show "(2::rat) ^ (la - 1) \<le> of_int a" using a by simp
    have "(of_nat (nat a) :: rat) < of_nat (2 ^ la)" using ba(2) by (simp only: of_nat_less_iff)
    then show "(of_int a :: rat) < 2 ^ la" using a by simp
  qed
  have rc: "(2::rat) ^ (lc - 1) \<le> of_int c" "(of_int c :: rat) < 2 ^ lc"
  proof -
    have "(of_nat (2 ^ (lc - 1)) :: rat) \<le> of_nat (nat c)" using bc(1) by (simp only: of_nat_le_iff)
    then show "(2::rat) ^ (lc - 1) \<le> of_int c" using c by simp
    have "(of_nat (nat c) :: rat) < of_nat (2 ^ lc)" using bc(2) by (simp only: of_nat_less_iff)
    then show "(of_int c :: rat) < 2 ^ lc" using c by simp
  qed
  have cpos: "(0::rat) < of_int c" using c by simp
  have p1: "(2::rat) powi (k + 1) = 2 ^ la / 2 ^ (lc - 1)"
  proof -
    have "k + 1 = int la - int (lc - 1)" using lc by (simp add: k_def)
    then show ?thesis by (simp add: power_int_diff)
  qed
  have p2: "(2::rat) powi (k - 1) = 2 ^ (la - 1) / 2 ^ lc"
  proof -
    have "k - 1 = int (la - 1) - int lc" using la by (simp add: k_def)
    then show ?thesis by (simp add: power_int_diff)
  qed
  have up: "\<bar>x\<bar> < 2 powi (k + 1)"
  proof -
    have "of_int a / of_int c < (2::rat) ^ la / of_int c"
      using ra(2) cpos by (simp add: divide_strict_right_mono)
    also have "\<dots> \<le> 2 ^ la / 2 ^ (lc - 1)"
      using rc(1) cpos by (intro divide_left_mono mult_pos_pos) simp_all
    finally show ?thesis unfolding x p1 .
  qed
  have lo: "2 powi (k - 1) \<le> \<bar>x\<bar>"
  proof -
    have "(2::rat) ^ (la - 1) / 2 ^ lc \<le> 2 ^ (la - 1) / of_int c"
      using rc(2) cpos by (intro divide_left_mono mult_pos_pos) simp_all
    also have "\<dots> \<le> of_int a / of_int c"
      using ra(1) cpos by (simp add: divide_right_mono)
    finally show ?thesis unfolding x p2 .
  qed
  have b: "binade x = (if 2 powi k \<le> \<bar>x\<bar> then k else k - 1)"
    by (simp add: binade_def q k_def la_def lc_def Let_def)
  show ?thesis
  proof (cases "2 powi k \<le> \<bar>x\<bar>")
    case True
    with b up show ?thesis by simp
  next
    case False
    with b lo show ?thesis by simp
  qed
qed

lemma binade_eqI:
  assumes "2 powi e \<le> \<bar>x\<bar>" "\<bar>x\<bar> < 2 powi (e + 1)"
  shows "binade x = e"
proof -
  have "0 < \<bar>x\<bar>" using assms(1) by (rule less_le_trans[rotated]) simp
  then have "x \<noteq> 0" by simp
  from binade_bounds[OF this] have b: "2 powi binade x \<le> \<bar>x\<bar>" "\<bar>x\<bar> < 2 powi (binade x + 1)"
    by simp_all
  have "(2::rat) powi binade x < 2 powi (e + 1)" using b(1) assms(2) by simp
  then have 1: "binade x < e + 1" by (simp only: pow2_less_iff)
  have "(2::rat) powi e < 2 powi (binade x + 1)" using assms(1) b(2) by simp
  then have 2: "e < binade x + 1" by (simp only: pow2_less_iff)
  from 1 2 show ?thesis by simp
qed

lemma binade_mono:
  assumes "x \<noteq> 0" "\<bar>x\<bar> \<le> \<bar>y\<bar>"
  shows "binade x \<le> binade y"
proof -
  have "y \<noteq> 0" using assms by auto
  from binade_bounds[OF assms(1)] binade_bounds[OF this] assms(2)
  have "(2::rat) powi binade x < 2 powi (binade y + 1)" by simp
  then have "binade x < binade y + 1" by (simp only: pow2_less_iff)
  then show ?thesis by simp
qed


lemma pow2_add: "(2::rat) powi (i + j) = 2 powi i * 2 powi j"
  by (rule power_int_add) simp

lemma pow2_split:
  "(2::rat) powi (e + 1) = of_int (2 ^ 53) * 2 powi (e - 52)"
  "(2::rat) powi e = of_int (2 ^ 52) * 2 powi (e - 52)"
proof -
  have "(2::rat) powi (e + 1) = 2 powi (53 + (e - 52))"
    by (rule arg_cong[where f = "\<lambda>k. 2 powi k"]) simp
  also have "\<dots> = 2 powi 53 * 2 powi (e - 52)" by (rule pow2_add)
  finally show "(2::rat) powi (e + 1) = of_int (2 ^ 53) * 2 powi (e - 52)" by simp
  have "(2::rat) powi e = 2 powi (52 + (e - 52))"
    by (rule arg_cong[where f = "\<lambda>k. 2 powi k"]) simp
  also have "\<dots> = 2 powi 52 * 2 powi (e - 52)" by (rule pow2_add)
  finally show "(2::rat) powi e = of_int (2 ^ 52) * 2 powi (e - 52)" by simp
qed

lemma roundHalfEven_cases: "roundHalfEven q = \<lfloor>q\<rfloor> \<or> roundHalfEven q = \<lfloor>q\<rfloor> + 1"
  by (simp add: roundHalfEven_def Let_def)

lemma roundHalfEven_error: "\<bar>of_int (roundHalfEven q) - q\<bar> \<le> 1 / 2"
proof -
  define f where "f = q - of_int \<lfloor>q\<rfloor>"
  have f: "0 \<le> f" "f < 1" unfolding f_def by linarith+
  have q: "q = of_int \<lfloor>q\<rfloor> + f" by (simp add: f_def)
  consider "f < 1 / 2" | "f > 1 / 2" | "f = 1 / 2" by linarith
  then show ?thesis
  proof cases
    case 1
    then have "roundHalfEven q = \<lfloor>q\<rfloor>" by (simp add: roundHalfEven_def Let_def f_def)
    then have "of_int (roundHalfEven q) - q = - f" by (simp add: f_def)
    with 1 f show ?thesis by simp
  next
    case 2
    then have "roundHalfEven q = \<lfloor>q\<rfloor> + 1" by (simp add: roundHalfEven_def Let_def f_def)
    then have "of_int (roundHalfEven q) - q = 1 - f" by (simp add: f_def)
    with 2 f show ?thesis by simp
  next
    case 3
    then have "roundHalfEven q = \<lfloor>q\<rfloor> \<or> roundHalfEven q = \<lfloor>q\<rfloor> + 1"
      by (rule_tac roundHalfEven_cases)
    then have "of_int (roundHalfEven q) - q = - f \<or> of_int (roundHalfEven q) - q = 1 - f"
      by (auto simp: f_def)
    with 3 show ?thesis by auto
  qed
qed

lemma roundHalfEven_eqI:
  assumes "\<bar>q - of_int n\<bar> < 1 / 2"
  shows "roundHalfEven q = n"
proof -
  have "\<bar>of_int (roundHalfEven q) - (of_int n :: rat)\<bar> < 1"
    using roundHalfEven_error[of q] assms by linarith
  then have "\<bar>(of_int (roundHalfEven q - n) :: rat)\<bar> < 1" by simp
  then have "\<bar>roundHalfEven q - n\<bar> < 1"
    by (metis of_int_abs of_int_less_1_iff)
  then show ?thesis by simp
qed

lemma roundHalfEven_of_int: "roundHalfEven (of_int n) = n"
  by (rule roundHalfEven_eqI) simp

lemma roundHalfEven_mono:
  assumes "q \<le> q'"
  shows "roundHalfEven q \<le> roundHalfEven q'"
proof (cases "\<lfloor>q\<rfloor> = \<lfloor>q'\<rfloor>")
  case True
  have "q - of_int \<lfloor>q'\<rfloor> \<le> q' - of_int \<lfloor>q'\<rfloor>" using assms by simp
  then show ?thesis unfolding roundHalfEven_def Let_def True by auto
next
  case False
  with assms have "\<lfloor>q\<rfloor> < \<lfloor>q'\<rfloor>" using floor_mono[OF assms] by simp
  then have "roundHalfEven q \<le> \<lfloor>q'\<rfloor>" using roundHalfEven_cases[of q] by auto
  also have "\<lfloor>q'\<rfloor> \<le> roundHalfEven q'" using roundHalfEven_cases[of q'] by auto
  finally show ?thesis .
qed

lemma roundDouble_pos:
  assumes "0 < x"
  shows "roundDouble x
         = of_int (roundHalfEven (x / 2 powi (max (binade x) (- 1022) - 52)))
           * 2 powi (max (binade x) (- 1022) - 52)"
  using assms by (simp add: roundDouble_def Let_def)

lemma roundDouble_eqI:
  assumes "0 < x" "2 powi e \<le> x" "x < 2 powi (e + 1)" "- 1022 \<le> e"
    and "\<bar>x / 2 powi (e - 52) - of_int n\<bar> < 1 / 2"
  shows "roundDouble x = of_int n * 2 powi (e - 52)"
proof -
  have "binade x = e" using assms(1,2,3) by (intro binade_eqI) simp_all
  then have "max (binade x) (- 1022) = e" using assms(4) by simp
  then show ?thesis
    using roundDouble_pos[OF assms(1)] roundHalfEven_eqI[OF assms(5)] by simp
qed

lemma roundDouble_nonneg: "0 \<le> x \<Longrightarrow> 0 \<le> roundDouble x"
proof (cases "x = 0")
  case True
  then show ?thesis by (simp add: roundDouble_def)
next
  case False
  assume "0 \<le> x"
  with False have x: "0 < x" by simp
  let ?u = "(2::rat) powi (max (binade x) (- 1022) - 52)"
  have "0 \<le> x / ?u" using x by simp
  then have "roundHalfEven 0 \<le> roundHalfEven (x / ?u)" by (rule roundHalfEven_mono)
  moreover have "roundHalfEven 0 = 0" using roundHalfEven_of_int[of 0] by simp
  ultimately have "0 \<le> roundHalfEven (x / ?u)" by simp
  then show ?thesis unfolding roundDouble_pos[OF x] by simp
qed

lemma roundDouble_upper:
  assumes "0 < x"
  shows "roundDouble x \<le> 2 powi (max (binade x) (- 1022) + 1)"
proof -
  let ?e = "max (binade x) (- 1022)"
  let ?u = "(2::rat) powi (?e - 52)"
  have u: "0 < ?u" by simp
  have "x < 2 powi (binade x + 1)" using binade_bounds[of x] assms by simp
  also have "\<dots> \<le> 2 powi (?e + 1)" by (simp add: pow2_le_iff)
  finally have "x < 2 powi (?e + 1)" .
  moreover have "(2::rat) powi (?e + 1) = of_int (2 ^ 53) * ?u" by (rule pow2_split)
  ultimately have "x / ?u \<le> of_int (2 ^ 53)" using u by (simp add: pos_divide_le_eq)
  then have "roundHalfEven (x / ?u) \<le> roundHalfEven (of_int (2 ^ 53))" by (rule roundHalfEven_mono)
  then have "roundHalfEven (x / ?u) \<le> 2 ^ 53" by (simp only: roundHalfEven_of_int)
  then have "(of_int (roundHalfEven (x / ?u)) :: rat) \<le> of_int (2 ^ 53)" by (simp only: of_int_le_iff)
  then have "of_int (roundHalfEven (x / ?u)) * ?u \<le> of_int (2 ^ 53) * ?u"
    using u by (intro mult_right_mono) simp_all
  then show ?thesis unfolding roundDouble_pos[OF assms] \<open>(2::rat) powi (?e + 1) = of_int (2 ^ 53) * ?u\<close> .
qed

lemma roundDouble_lower:
  assumes "0 < x" "- 1022 \<le> binade x"
  shows "2 powi binade x \<le> roundDouble x"
proof -
  let ?e = "binade x"
  let ?u = "(2::rat) powi (?e - 52)"
  have m: "max (binade x) (- 1022) = ?e" using assms(2) by simp
  have u: "0 < ?u" by simp
  have p: "(2::rat) powi ?e = of_int (2 ^ 52) * ?u" by (rule pow2_split)
  have "2 powi ?e \<le> x" using binade_bounds[of x] assms(1) by simp
  then have "of_int (2 ^ 52) \<le> x / ?u" using u unfolding p by (simp add: pos_le_divide_eq)
  then have "roundHalfEven (of_int (2 ^ 52)) \<le> roundHalfEven (x / ?u)" by (rule roundHalfEven_mono)
  then have "2 ^ 52 \<le> roundHalfEven (x / ?u)" by (simp only: roundHalfEven_of_int)
  then have "(of_int (2 ^ 52) :: rat) \<le> of_int (roundHalfEven (x / ?u))" by (simp only: of_int_le_iff)
  then have "of_int (2 ^ 52) * ?u \<le> of_int (roundHalfEven (x / ?u)) * ?u"
    using u by (intro mult_right_mono) simp_all
  then show ?thesis unfolding roundDouble_pos[OF assms(1)] m p .
qed

lemma roundDouble_mono:
  assumes "0 \<le> x" "x \<le> y"
  shows "roundDouble x \<le> roundDouble y"
proof (cases "x = 0")
  case True
  then have "roundDouble x = 0" by (simp add: roundDouble_def)
  with roundDouble_nonneg[of y] assms show ?thesis by simp
next
  case False
  with assms have x: "0 < x" and y: "0 < y" by simp_all
  let ?ex = "max (binade x) (- 1022)"
  let ?ey = "max (binade y) (- 1022)"
  have b: "binade x \<le> binade y" using x y assms(2) by (intro binade_mono) simp_all
  then have le: "?ex \<le> ?ey" by simp
  show ?thesis
  proof (cases "?ex = ?ey")
    case True
    let ?u = "(2::rat) powi (?ey - 52)"
    have "x / ?u \<le> y / ?u" using assms(2) by (simp add: divide_right_mono)
    then have "roundHalfEven (x / ?u) \<le> roundHalfEven (y / ?u)" by (rule roundHalfEven_mono)
    then have "(of_int (roundHalfEven (x / ?u)) :: rat) * ?u \<le> of_int (roundHalfEven (y / ?u)) * ?u"
      by (intro mult_right_mono) simp_all
    then show ?thesis unfolding roundDouble_pos[OF x] roundDouble_pos[OF y] True .
  next
    case False
    from le False have lt: "?ex < ?ey" by (rule le_neq_trans)
    then have ey: "?ey = binade y" "- 1022 \<le> binade y" by linarith+
    have "roundDouble x \<le> 2 powi (?ex + 1)" by (rule roundDouble_upper[OF x])
    also have "\<dots> \<le> 2 powi binade y"
    proof -
      have "?ex + 1 \<le> binade y" using lt ey(1) by linarith
      then show ?thesis by (simp only: pow2_le_iff)
    qed
    also have "\<dots> \<le> roundDouble y" by (rule roundDouble_lower[OF y ey(2)])
    finally show ?thesis .
  qed
qed

lemma roundDouble_error:
  assumes "2 powi (- 1022) \<le> x"
  shows "\<bar>roundDouble x - x\<bar> \<le> x / 2 ^ 53"
proof -
  have x: "0 < x" using assms by (rule less_le_trans[rotated]) simp
  let ?e = "binade x"
  let ?u = "(2::rat) powi (?e - 52)"
  have bb: "2 powi ?e \<le> x" "x < 2 powi (?e + 1)" using binade_bounds[of x] x by simp_all
  have "(2::rat) powi (- 1022) < 2 powi (?e + 1)" using assms bb(2) by simp
  then have "- 1022 < ?e + 1" by (simp only: pow2_less_iff)
  then have m: "max ?e (- 1022) = ?e" by simp
  have u: "0 < ?u" by simp
  let ?n = "roundHalfEven (x / ?u)"
  have "roundDouble x - x = (of_int ?n - x / ?u) * ?u"
    unfolding roundDouble_pos[OF x] m using u by (simp add: algebra_simps)
  then have "\<bar>roundDouble x - x\<bar> = \<bar>of_int ?n - x / ?u\<bar> * ?u"
    using u by (simp add: abs_mult)
  also have "\<dots> \<le> 1 / 2 * ?u"
    using roundHalfEven_error[of "x / ?u"] u by (intro mult_right_mono) simp_all
  also have "1 / 2 * ?u = 2 powi ?e / 2 ^ 53"
    using pow2_split(2)[of ?e] by simp
  also have "\<dots> \<le> x / 2 ^ 53" using bb(1) by (simp add: divide_right_mono)
  finally show ?thesis .
qed


lemma roundDouble_0: "roundDouble 0 = 0"
  by (simp add: roundDouble_def)

lemma jsDiv_0: "jsDiv 0 y = 0"
  by (simp add: jsDiv_def roundDouble_0)

lemma jsMul_0: "jsMul 0 y = 0"
  by (simp add: jsMul_def roundDouble_0)

lemma ms_of_1: "jsMul (jsDiv 1 300) 1000 = 7505999378950827 / 2251799813685248"
proof -
  have a: "roundDouble (1 / 300) = 7686143364045647 / 2305843009213693952"
    using roundDouble_eqI[of "1 / 300" "-9" 7686143364045647] by simp
  have b: "roundDouble (7686143364045647 / 2305843009213693952 * 1000) = 7505999378950827 / 2251799813685248"
    using roundDouble_eqI[of "7686143364045647 / 2305843009213693952 * 1000" "1" 7505999378950827] by simp
  show ?thesis unfolding jsMul_def jsDiv_def a b ..
qed

lemma ms_of_2: "jsMul (jsDiv 2 300) 1000 = 7505999378950827 / 1125899906842624"
proof -
  have a: "roundDouble (2 / 300) = 7686143364045647 / 1152921504606846976"
    using roundDouble_eqI[of "2 / 300" "-8" 7686143364045647] by simp
  have b: "roundDouble (7686143364045647 / 1152921504606846976 * 1000) = 7505999378950827 / 1125899906842624"
    using roundDouble_eqI[of "7686143364045647 / 1152921504606846976 * 1000" "2" 7505999378950827] by simp
  show ?thesis unfolding jsMul_def jsDiv_def a b ..
qed

lemma ms_of_150: "jsMul (jsDiv 150 300) 1000 = 500"
proof -
  have a: "roundDouble (150 / 300) = 1 / 2"
    using roundDouble_eqI[of "150 / 300" "-1" 4503599627370496] by simp
  have b: "roundDouble (1 / 2 * 1000) = 500"
    using roundDouble_eqI[of "1 / 2 * 1000" "8" 8796093022208000] by simp
  show ?thesis unfolding jsMul_def jsDiv_def a b ..
qed

lemma ms_of_300: "jsMul (jsDiv 300 300) 1000 = 1000"
proof -
  have a: "roundDouble (300 / 300) = 1"
    using roundDouble_eqI[of "300 / 300" "0" 4503599627370496] by simp
  have b: "roundDouble (1 * 1000) = 1000"
    using roundDouble_eqI[of "1 * 1000" "9" 8796093022208000] by simp
  show ?thesis unfolding jsMul_def jsDiv_def a b ..
qed

lemma ms_of_603: "jsMul (jsDiv 603 300) 1000 = 8840073487319039 / 4398046511104"
proof -
  have a: "roundDouble (603 / 300) = 1131529406376837 / 562949953421312"
    using roundDouble_eqI[of "603 / 300" "1" 4526117625507348] by simp
  have b: "roundDouble (1131529406376837 / 562949953421312 * 1000) = 8840073487319039 / 4398046511104"
    using roundDouble_eqI[of "1131529406376837 / 562949953421312 * 1000" "10" 8840073487319039] by simp
  show ?thesis unfolding jsMul_def jsDiv_def a b ..
qed

lemma tiny_le: "(2::rat) powi (- 1022) \<le> 1 / 512"
proof -
  have "(- 1022 :: int) \<le> - 9" by simp
  then have "(2::rat) powi (- 1022) \<le> 2 powi (- 9)" by (simp only: pow2_le_iff)
  also have "\<dots> = 1 / 512" by simp
  finally show ?thesis .
qed

lemma ms_error:
  "\<bar>jsMul (jsDiv (of_nat n) 300) 1000 - of_nat n / 300 * 1000\<bar>
     \<le> (of_nat n / 300 * 1000) / 2 ^ 51"
proof (cases "n = 0")
  case True
  then show ?thesis by (simp add: jsMul_def jsDiv_def roundDouble_0)
next
  case False
  define a :: rat where "a = of_nat n / 300"
  define r1 where "r1 = roundDouble a"
  define y where "y = r1 * 1000"
  have n1: "(1::rat) \<le> of_nat n" using False by simp
  have a_lo: "1 / 300 \<le> a" unfolding a_def using n1 by simp
  have "(1::rat) / 512 \<le> a" using a_lo by linarith
  then have a_tiny: "2 powi (- 1022) \<le> a" by (rule order_trans[OF tiny_le])
  have e1: "\<bar>r1 - a\<bar> \<le> a / 2 ^ 53"
    unfolding r1_def by (rule roundDouble_error[OF a_tiny])
  have a_pos: "0 < a" using a_lo by linarith
  have half: "a / 2 ^ 53 \<le> a / 2" using a_pos by simp
  have r1_lo: "a / 2 \<le> r1" using e1 half by linarith
  have r1_hi: "r1 \<le> a + a / 2 ^ 53" using e1 by linarith
  have y_lo: "1 \<le> y" unfolding y_def using r1_lo a_lo by linarith
  have "(1::rat) / 512 \<le> y" using y_lo by linarith
  then have y_tiny: "2 powi (- 1022) \<le> y" by (rule order_trans[OF tiny_le])
  have e2: "\<bar>roundDouble y - y\<bar> \<le> y / 2 ^ 53"
    by (rule roundDouble_error[OF y_tiny])
  have y_hi: "y \<le> 2 * (a * 1000)" unfolding y_def using r1_hi half a_pos by linarith
  have e2': "\<bar>roundDouble y - y\<bar> \<le> 2 * (a * 1000) / 2 ^ 53"
  proof -
    have "y / 2 ^ 53 \<le> 2 * (a * 1000) / 2 ^ 53"
      using y_hi by (rule divide_right_mono) simp
    then show ?thesis using e2 by linarith
  qed
  have e1': "\<bar>y - a * 1000\<bar> \<le> a * 1000 / 2 ^ 53"
  proof -
    have "y - a * 1000 = (r1 - a) * 1000"
      unfolding y_def by (simp add: algebra_simps)
    then have "\<bar>y - a * 1000\<bar> = \<bar>r1 - a\<bar> * 1000"
      by (simp only: abs_mult abs_numeral)
    also have "\<dots> \<le> a / 2 ^ 53 * 1000" using e1 by simp
    finally show ?thesis by simp
  qed
  have "\<bar>roundDouble y - a * 1000\<bar> \<le> 2 * (a * 1000) / 2 ^ 53 + a * 1000 / 2 ^ 53"
    using e1' e2' by linarith
  also have "\<dots> \<le> a * 1000 / 2 ^ 51" using a_pos by simp
  finally show ?thesis
    unfolding jsMul_def jsDiv_def y_def r1_def a_def .
qed

subsection \<open>Masks and shifts on natural numbers\<close>

lemma nat_and_mask: "(n::nat) AND (2 ^ k - 1) = n mod 2 ^ k"
  using take_bit_eq_mask[of k n] by (simp add: take_bit_eq_mod mask_eq_exp_minus_1)

lemma and_0x0f: "(n::nat) AND 0x0f = n mod 16"
  using nat_and_mask[of n 4] by simp

lemma and_0x3f: "(n::nat) AND 0x3f = n mod 64"
  using nat_and_mask[of n 6] by simp

lemma and_0x1f: "(n::nat) AND 0x1f = n mod 32"
  using nat_and_mask[of n 5] by simp

lemma and_0x07: "(n::nat) AND 0x07 = n mod 8"
  using nat_and_mask[of n 3] by simp

lemma and_0x03: "(n::nat) AND 0x03 = n mod 4"
  using nat_and_mask[of n 2] by simp

lemma bits_4_5: "drop_bit 4 ((n::nat) AND 0x30) = n div 16 mod 4"
proof -
  have "drop_bit 4 (n AND 0x30) = drop_bit 4 n AND drop_bit 4 (0x30::nat)" by simp
  also have "drop_bit 4 (0x30::nat) = 3" by (simp add: drop_bit_eq_div)
  finally show ?thesis by (simp add: and_0x03 drop_bit_eq_div)
qed

lemma bits_2_5: "drop_bit 2 ((n::nat) AND 0x3c) = n div 4 mod 16"
proof -
  have "drop_bit 2 (n AND 0x3c) = drop_bit 2 n AND drop_bit 2 (0x3c::nat)" by simp
  also have "drop_bit 2 (0x3c::nat) = 15" by (simp add: drop_bit_eq_div)
  finally show ?thesis by (simp add: and_0x0f drop_bit_eq_div)
qed

lemma or_two_bit_fields: "a < 4 \<Longrightarrow> c < 4 \<Longrightarrow> push_bit 2 (a::nat) OR c = 4 * a + c"
proof -
  assume "a < 4" "c < 4"
  then have "a \<in> {0, 1, 2, 3}" "c \<in> {0, 1, 2, 3}" by auto
  then show ?thesis by (auto simp: push_bit_eq_mult)
qed

lemmas nat_masks = and_0x0f and_0x3f and_0x1f and_0x07 and_0x03 bits_4_5 bits_2_5

lemma packed_channels:
  fixes x y :: nat
  assumes "x < 64" "y < 64"
  shows "(x * 64 + y) div 256 = x div 4"
    and "(x * 64 + y) div 16 mod 16 = 4 * (x mod 4) + y div 16"
    and "(x * 64 + y) mod 16 = y mod 16"
proof -
  define q m where "q = x div 4" and "m = x mod 4"
  have x: "x = 4 * q + m" and m: "m < 4" by (simp_all add: q_def m_def)
  have y16: "y div 16 < 4" using assms by simp
  have "x * 64 + y = 256 * q + (64 * m + y)" by (simp add: x)
  moreover have "64 * m + y < 256" using m assms by simp
  ultimately show "(x * 64 + y) div 256 = x div 4" by (simp add: q_def[symmetric])
  have "(x * 64 + y) div 16 = 4 * x + y div 16" by simp
  also have "\<dots> = 16 * q + (4 * m + y div 16)" by (simp add: x)
  finally have "(x * 64 + y) div 16 mod 16 = (4 * m + y div 16) mod 16" by simp
  also have "\<dots> = 4 * m + y div 16" using m y16 by simp
  finally show "(x * 64 + y) div 16 mod 16 = 4 * (x mod 4) + y div 16" by (simp add: m_def)
  have "x * 64 + y = 16 * (4 * x) + y" by simp
  then have "(x * 64 + y) mod 16 = (16 * (4 * x) + y) mod 16" by (rule arg_cong)
  also have "\<dots> = y mod 16" by (rule mod_mult_self4)
  finally show "(x * 64 + y) mod 16 = y mod 16" .
qed

lemma unpack_color:
  fixes u v :: nat
  shows "\<lparr> r = drop_bit 2 ((u AND 0x3f) AND 0x3c) * 17,
           g = (push_bit 2 ((u AND 0x3f) AND 0x03) OR drop_bit 4 ((v AND 0x3f) AND 0x30)) * 17,
           b = ((v AND 0x3f) AND 0x0f) * 17 \<rparr>
       = \<lparr> r = ((u mod 64 * 64 + v mod 64) div 256) * 17,
           g = ((u mod 64 * 64 + v mod 64) div 16 mod 16) * 17,
           b = ((u mod 64 * 64 + v mod 64) mod 16) * 17 \<rparr>"
proof -
  define x y where "x = u mod 64" and "y = v mod 64"
  have xy: "x < 64" "y < 64" by (simp_all add: x_def y_def)
  have y4: "y div 16 mod 4 = y div 16" using xy by simp
  have x16: "x div 4 mod 16 = x div 4" using xy by simp
  have green: "push_bit 2 (x mod 4) OR (y div 16) = 4 * (x mod 4) + y div 16"
    using xy by (intro or_two_bit_fields) simp_all
  show ?thesis
    unfolding nat_masks x_def[symmetric] y_def[symmetric]
    by (simp only: y4 x16 green packed_channels[OF xy])
qed

lemma parseColor_layout:
  assumes "2 * i + 1 < length d"
  shows "parseColor d i = layoutColor (d ! (2 * i)) (d ! (2 * i + 1))"
proof -
  have b1: "byteAt d (i * 2) = unat (d ! (2 * i))" "byteAt d (i * 2 + 1) = unat (d ! (2 * i + 1))"
    using assms by (simp_all add: byteAt_def mult.commute)
  have p: "(2::nat) ^ 6 = 64" by simp
  show ?thesis
    unfolding parseColor_def layoutColor_def lowBits_def Let_def b1 p
    by (rule unpack_color)
qed


lemma byteAt_nth: "k < length d \<Longrightarrow> byteAt d k = unat (d ! k)"
  by (simp add: byteAt_def)

lemma tile_rows_layout:
  assumes "length d = 16"
  shows "map (\<lambda>x. unat x AND 0x3f) (subarray d 4 16) = map (\<lambda>k. lowBits 6 (d ! k)) [4..<16]"
proof (rule nth_equalityI)
  show "length (map (\<lambda>x. unat x AND 0x3f) (subarray d 4 16)) = length (map (\<lambda>k. lowBits 6 (d ! k)) [4..<16])"
    using assms by (simp add: subarray_def)
next
  fix i assume "i < length (map (\<lambda>x. unat x AND 0x3f) (subarray d 4 16))"
  then have i: "i < 12" using assms by (simp add: subarray_def)
  then show "map (\<lambda>x. unat x AND 0x3f) (subarray d 4 16) ! i = map (\<lambda>k. lowBits 6 (d ! k)) [4..<16] ! i"
    using assms by (simp add: subarray_def lowBits_def and_0x3f del: upt_rec_numeral)
qed

lemma color_table_layout:
  assumes "length d = 16"
  shows "map (parseColor d) [0..<8] = map (\<lambda>i. layoutColor (d ! (2 * i)) (d ! (2 * i + 1))) [0..<8]"
proof (rule map_cong[OF refl])
  fix i assume "i \<in> set [0..<8]"
  then have "2 * i + 1 < length d" using assms by simp
  then show "parseColor d i = layoutColor (d ! (2 * i)) (d ! (2 * i + 1))"
    by (rule parseColor_layout)
qed

lemma parseInstruction_layout:
  assumes "length d = 16"
  shows "parseInstruction opc d = layoutInstruction opc d"
proof -
  have at: "byteAt d 0 = unat (d ! 0)" "byteAt d 1 = unat (d ! 1)"
           "byteAt d 2 = unat (d ! 2)" "byteAt d 3 = unat (d ! 3)"
    using assms by (simp_all add: byteAt_nth)
  show ?thesis
    unfolding parseInstruction_def layoutInstruction_def cdg_inst
      tile_rows_layout[OF assms] color_table_layout[OF assms]
    unfolding at nat_masks
    by (simp add: lowBits_def bitsFrom_def)
qed

text \<open>
  Claim C1. A 24-byte packet whose command byte has the low 6 bits \<open>0x09\<close> and whose
  opcode (the low 6 bits of byte 1) is one of the nine known values decodes to exactly one
  instruction, at time 0, and that instruction is the one the bit layout of the
  specification gives for the opcode and the data bytes 4 to 19: colours and repeat are
  the low 4 bits of their byte, the tile row the low 5 bits of data byte 2, the tile
  column the low 6 bits of data byte 3, each pixel row the low 6 bits of data bytes 4 to
  15, \<open>hScroll\<close> and \<open>vScroll\<close> bits 4 and 5 of data bytes 1 and 2, \<open>hOffset\<close> the low
  3 bits of data byte 1, \<open>vOffset\<close> the low 4 bits of data byte 2, and each colour-table
  entry three 4-bit channels out of two 6-bit bytes, each scaled by 17.
\<close>

theorem decode_known_packet:
  assumes len: "length packet = 24"
    and cmd: "lowBits 6 (packet ! 0) = 9"
    and opc: "opc = lowBits 6 (packet ! 1)"
    and known: "opc \<in> {1, 2, 6, 20, 24, 28, 30, 31, 38}"
  shows "packets (parseCdgFile packet) =
           [\<lparr> timeMs = 0, instruction = layoutInstruction opc (take 16 (drop 4 packet)) \<rparr>]
         \<and> layoutInstruction opc (take 16 (drop 4 packet)) \<noteq> None"
proof -
  define d where "d = take 16 (drop 4 packet)"
  have d: "length d = 16" using len by (simp add: d_def)
  have some: "layoutInstruction opc d \<noteq> None"
    using known by (auto simp: layoutInstruction_def)
  then obtain inst where inst: "layoutInstruction opc d = Some inst" by blast
  have sub: "subarray packet (0 * CDG_PACKET_SIZE) (0 * CDG_PACKET_SIZE + CDG_PACKET_SIZE) = packet"
    using len by (simp add: subarray_def cdg_consts)
  have data: "subarray packet 4 20 = d" by (simp add: subarray_def d_def)
  have c: "byteAt packet 0 AND 0x3f = 9"
    using cmd len by (simp add: byteAt_nth and_0x3f lowBits_def)
  have i: "byteAt packet 1 AND 0x3f = opc"
    using opc len by (simp add: byteAt_nth and_0x3f lowBits_def)
  have "parsePacket packet 0 [] = [\<lparr> timeMs = 0, instruction = Some inst \<rparr>]"
    unfolding parsePacket_def Let_def sub data c i parseInstruction_layout[OF d] inst
    by (simp add: jsDiv_0 jsMul_0)
  moreover have "length packet div CDG_PACKET_SIZE = 1" using len by (simp add: cdg_consts)
  ultimately have "packets (parseCdgFile packet) = [\<lparr> timeMs = 0, instruction = Some inst \<rparr>]"
    by (simp add: parseCdgFile_def Let_def)
  then show ?thesis using some inst by (simp add: d_def)
qed


theorem decode_known_packet_witness:
  "length [0x49, 0xA6, 0, 0, 0x11, 0x22, 0x23, 0x44, 0x3F, 0x40, 0xFF, 1, 2, 3, 4, 5, 6, 7, 8, 9, 0, 0, 0, 0 :: byte] = 24
   \<and> lowBits 6 (0x49 :: byte) = 9 \<and> lowBits 6 (0xA6 :: byte) = 38
   \<and> packets (parseCdgFile [0x49, 0xA6, 0, 0, 0x11, 0x22, 0x23, 0x44, 0x3F, 0x40, 0xFF, 1, 2, 3, 4, 5, 6, 7, 8, 9, 0, 0, 0, 0])
       = [\<lparr> timeMs = 0, instruction = Some (TileBlock True 1 2 3 4 [63, 0, 63, 1, 2, 3, 4, 5, 6, 7, 8, 9]) \<rparr>]"
  using decode_known_packet[of "[0x49, 0xA6, 0, 0, 0x11, 0x22, 0x23, 0x44, 0x3F, 0x40, 0xFF, 1, 2, 3, 4, 5, 6, 7, 8, 9, 0, 0, 0, 0]" 38]
  by (simp add: lowBits_def layoutInstruction_def)

text \<open>
  Claim C7 says that the duration is \<open>floor (byteLength / 24) / 300 * 1000\<close> for every
  buffer. The code computes \<open>(numPackets / 300) * 1000\<close> in doubles, and the quotient is
  rounded before it is multiplied: for a buffer of \<open>603 * 24\<close> bytes the duration is
  \<open>2010 - 2^(-42)\<close> (printed 2009.9999999999998), not 2010.
\<close>

theorem duration_of_603_packets:
  "durationMs (parseCdgFile (replicate (603 * 24) 0)) = 2010 - 1 / 2 ^ 42
   \<and> durationMs (parseCdgFile (replicate (603 * 24) 0))
       \<noteq> of_nat (length (replicate (603 * 24) (0::byte)) div 24) / 300 * 1000"
proof -
  have "durationMs (parseCdgFile (replicate (603 * 24) 0)) = jsMul (jsDiv 603 300) 1000"
    by (simp add: parseCdgFile_def cdg_consts Let_def)
  then show ?thesis by (simp add: ms_of_603)
qed

text \<open>
  Claim C7, as amended. For every buffer the duration that \<open>parseCdgFile\<close> reports is the
  double \<open>(n / 300) * 1000\<close> with \<open>n = floor (byteLength / 24)\<close>, the quotient and the
  product each rounded to the nearest double; it differs from the exact
  \<open>n / 300 * 1000\<close> by at most that value times \<open>2^(-51)\<close>. A buffer of \<open>300 * 24\<close> bytes
  gives exactly 1000, one of \<open>150 * 24\<close> bytes exactly 500, and one of \<open>300 * 24 + 10\<close>
  bytes exactly 1000 (the trailing partial packet is dropped).
\<close>

theorem duration_rounded:
  assumes "length b1 = 300 * 24" and "length b2 = 150 * 24" and "length b3 = 300 * 24 + 10"
  shows "durationMs (parseCdgFile buffer)
           = jsMul (jsDiv (of_nat (length buffer div 24)) 300) 1000
         \<and> \<bar>durationMs (parseCdgFile buffer) - of_nat (length buffer div 24) / 300 * 1000\<bar>
             \<le> (of_nat (length buffer div 24) / 300 * 1000) / 2 ^ 51
         \<and> durationMs (parseCdgFile b1) = 1000
         \<and> durationMs (parseCdgFile b2) = 500
         \<and> durationMs (parseCdgFile b3) = 1000"
proof -
  have d: "durationMs (parseCdgFile src) = jsMul (jsDiv (of_nat (length src div 24)) 300) 1000"
    for src
    by (simp add: parseCdgFile_def cdg_consts Let_def)
  have e: "\<bar>durationMs (parseCdgFile buffer) - of_nat (length buffer div 24) / 300 * 1000\<bar>
             \<le> (of_nat (length buffer div 24) / 300 * 1000) / 2 ^ 51"
    unfolding d by (rule ms_error)
  have "length b1 div 24 = 300" "length b2 div 24 = 150" "length b3 div 24 = 300"
    using assms by simp_all
  then have "durationMs (parseCdgFile b1) = 1000" "durationMs (parseCdgFile b2) = 500"
    "durationMs (parseCdgFile b3) = 1000"
    by (simp_all add: d ms_of_300 ms_of_150)
  with d e show ?thesis by blast
qed

theorem duration_rounded_witness:
  "length (replicate 7200 (0::byte)) = 300 * 24
   \<and> length (replicate 3600 (0::byte)) = 150 * 24
   \<and> length (replicate 7210 (0::byte)) = 300 * 24 + 10
   \<and> durationMs (parseCdgFile (replicate 48 (9::byte))) = 7505999378950827 / 1125899906842624
   \<and> \<bar>durationMs (parseCdgFile (replicate 48 (9::byte))) - 20 / 3\<bar> \<le> (20 / 3) / 2 ^ 51
   \<and> durationMs (parseCdgFile (replicate 7200 (0::byte))) = 1000
   \<and> durationMs (parseCdgFile (replicate 3600 (0::byte))) = 500
   \<and> durationMs (parseCdgFile (replicate 7210 (0::byte))) = 1000"
  using duration_rounded[of "replicate 7200 0" "replicate 3600 0" "replicate 7210 0" "replicate 48 9"]
  by (simp add: ms_of_2)

section \<open>Properties of the renderer\<close>

subsection \<open>Loops that store one cell per iteration\<close>

lemma row_loop_length:
  "length (fold (\<lambda>x ps. ps[f x := h x ps]) xs ps) = length ps"
  by (induction xs arbitrary: ps) simp_all

lemma pixelAt_nth: "k < length ps \<Longrightarrow> pixelAt ps k = ps ! k"
  by (simp add: pixelAt_def)

lemma row_loop_nth:
  "j < length ps \<Longrightarrow>
   fold (\<lambda>x ps. ps[c + x := h x (pixelAt ps (c + x))]) [x0..<x1] ps ! j
     = (if c + x0 \<le> j \<and> j < c + x1 then h (j - c) (ps ! j) else ps ! j)"
proof (induction x1 arbitrary: j)
  case 0
  then show ?case by auto
next
  case (Suc n)
  show ?case
  proof (cases "x0 \<le> n")
    case False
    then show ?thesis by auto
  next
    case True
    let ?q = "fold (\<lambda>x ps. ps[c + x := h x (pixelAt ps (c + x))]) [x0..<n] ps"
    have len: "length ?q = length ps" by (rule row_loop_length)
    have step: "fold (\<lambda>x ps. ps[c + x := h x (pixelAt ps (c + x))]) [x0..<Suc n] ps
                = ?q[c + n := h n (pixelAt ?q (c + n))]"
      using True by simp
    show ?thesis
    proof (cases "j = c + n")
      case eq: True
      with Suc.prems have "c + n < length ps" by simp
      then have "pixelAt ?q (c + n) = ps ! (c + n)"
        using Suc.IH[of "c + n"] len by (simp add: pixelAt_nth)
      with eq True len Suc.prems show ?thesis unfolding step by simp
    next
      case False
      then have "?q[c + n := h n (pixelAt ?q (c + n))] ! j = ?q ! j" by simp
      with False Suc.IH[OF Suc.prems] show ?thesis unfolding step by auto
    qed
  qed
qed

lemma cell_in_row:
  fixes W :: nat
  assumes "x < W" "ox + x1 \<le> W"
  shows "(Y * W + ox + x0 \<le> y * W + x \<and> y * W + x < Y * W + ox + x1)
         \<longleftrightarrow> (y = Y \<and> ox + x0 \<le> x \<and> x < ox + x1)"
proof (cases "y = Y")
  case True
  then show ?thesis by auto
next
  case False
  then consider "y < Y" | "Y < y" by linarith
  then show ?thesis
  proof cases
    case 1
    then have "Suc y * W \<le> Y * W" by (intro mult_le_mono1) simp
    then have "y * W + x < Y * W" using assms by simp
    with False show ?thesis by auto
  next
    case 2
    then have "Suc Y * W \<le> y * W" by (intro mult_le_mono1) simp
    then have "Y * W + ox + x1 \<le> y * W + x" using assms by simp
    with False show ?thesis by auto
  qed
qed

lemma grid_loop_length:
  "length (fold (\<lambda>y. fold (\<lambda>x ps. ps[f y x := h y x ps]) xs) ys ps) = length ps"
  by (induction ys arbitrary: ps) (simp_all add: row_loop_length)

lemma grid_loop_nth:
  assumes "x < W" "ox + x1 \<le> W"
  shows "y * W + x < length ps \<Longrightarrow>
    fold (\<lambda>y'. fold (\<lambda>x' ps. ps[(oy + y') * W + ox + x' :=
                                  h y' x' (pixelAt ps ((oy + y') * W + ox + x'))]) [x0..<x1])
         [y0..<y1] ps ! (y * W + x)
      = (if oy + y0 \<le> y \<and> y < oy + y1 \<and> ox + x0 \<le> x \<and> x < ox + x1
         then h (y - oy) (x - ox) (ps ! (y * W + x)) else ps ! (y * W + x))"
proof (induction y1)
  case 0
  then show ?case by auto
next
  case (Suc n)
  show ?case
  proof (cases "y0 \<le> n")
    case False
    then show ?thesis by auto
  next
    case True
    let ?row = "\<lambda>y'. fold (\<lambda>x' ps. ps[(oy + y') * W + ox + x' :=
                                  h y' x' (pixelAt ps ((oy + y') * W + ox + x'))]) [x0..<x1]"
    let ?q = "fold ?row [y0..<n] ps"
    have len: "length ?q = length ps" by (rule grid_loop_length)
    have step: "fold ?row [y0..<Suc n] ps = ?row n ?q" using True by simp
    have "?row n ?q ! (y * W + x)
          = (if (oy + n) * W + ox + x0 \<le> y * W + x \<and> y * W + x < (oy + n) * W + ox + x1
             then h n (y * W + x - ((oy + n) * W + ox)) (?q ! (y * W + x)) else ?q ! (y * W + x))"
      using row_loop_nth[of "y * W + x" ?q "(oy + n) * W + ox" "h n" x0 x1] Suc.prems len
      by (simp add: add.assoc)
    also have "\<dots> = (if y = oy + n \<and> ox + x0 \<le> x \<and> x < ox + x1
                      then h n (x - ox) (?q ! (y * W + x)) else ?q ! (y * W + x))"
      using cell_in_row[OF assms, of "oy + n" x0 y] by auto
    finally show ?thesis
      unfolding step using Suc.IH[OF Suc.prems] True by auto
  qed
qed

subsection \<open>Border preset\<close>

lemma fillLoop_length: "length (fillLoop y0 y1 x0 x1 c ps) = length ps"
  unfolding fillLoop_def by (rule grid_loop_length)

lemma fillLoop_nth:
  assumes "x < CDG_WIDTH" "x1 \<le> CDG_WIDTH" "y * CDG_WIDTH + x < length ps"
  shows "fillLoop y0 y1 x0 x1 c ps ! (y * CDG_WIDTH + x)
         = (if y0 \<le> y \<and> y < y1 \<and> x0 \<le> x \<and> x < x1 then toUint8 c else ps ! (y * CDG_WIDTH + x))"
  using grid_loop_nth[of x CDG_WIDTH 0 x1 y ps 0 "\<lambda>_ _ _. toUint8 c" x0 y0 y1] assms
  by (simp add: fillLoop_def)

lemma toUint8_small: "c < 256 \<Longrightarrow> unat (toUint8 c) = c"
  by (simp add: toUint8_def unat_of_nat)

lemma cell_index_bound: "x < CDG_WIDTH \<Longrightarrow> y < CDG_HEIGHT \<Longrightarrow> y * CDG_WIDTH + x < CDG_WIDTH * CDG_HEIGHT"
proof -
  assume a: "x < CDG_WIDTH" "y < CDG_HEIGHT"
  then have "Suc y * CDG_WIDTH \<le> CDG_HEIGHT * CDG_WIDTH" by (intro mult_le_mono1) simp
  with a show ?thesis by (simp add: mult.commute)
qed

lemma drawBorder_nth:
  assumes len: "length (pixels rn) = CDG_WIDTH * CDG_HEIGHT"
    and x: "x < CDG_WIDTH" and y: "y < CDG_HEIGHT"
  shows "pixels (drawBorder c rn) ! (y * CDG_WIDTH + x)
         = (if y < 12 \<or> 204 \<le> y \<or> x < 6 \<or> 294 \<le> x then toUint8 c
            else pixels rn ! (y * CDG_WIDTH + x))"
proof -
  have i: "y * CDG_WIDTH + x < length (pixels rn)" using cell_index_bound[OF x y] len by simp
  have w: "CDG_WIDTH \<le> CDG_WIDTH" "CDG_BORDER_X \<le> CDG_WIDTH" by (simp_all add: cdg_consts)
  show ?thesis
    unfolding drawBorder_def Let_def
    using x y i
    by (simp add: fillLoop_nth fillLoop_length w) (auto simp: cdg_consts)
qed

text \<open>
  Claim C9. On a renderer with its 300 by 216 grid and for a colour \<open>c\<close> in 0..15,
  \<open>BorderPreset c\<close> sets every pixel of the top and bottom bands of 12 rows and of the
  left and right bands of 6 columns to \<open>c\<close>, and leaves every pixel of the inner 288 by
  192 area as it was.
\<close>

theorem border_preset_frame:
  assumes "length (pixels rn) = CDG_WIDTH * CDG_HEIGHT" and "c < 16"
    and "x < CDG_WIDTH" and "y < CDG_HEIGHT"
  shows "(if y < 12 \<or> 204 \<le> y \<or> x < 6 \<or> 294 \<le> x
          then unat (pixels (applyInstruction rn (BorderPreset c)) ! (y * CDG_WIDTH + x)) = c
          else pixels (applyInstruction rn (BorderPreset c)) ! (y * CDG_WIDTH + x)
               = pixels rn ! (y * CDG_WIDTH + x))
         \<and> length (pixels (applyInstruction rn (BorderPreset c))) = length (pixels rn)"
proof -
  have "pixels (applyInstruction rn (BorderPreset c)) = pixels (drawBorder c rn)"
    by (simp add: drawBorder_def Let_def)
  moreover have "length (pixels (drawBorder c rn)) = length (pixels rn)"
    by (simp add: drawBorder_def Let_def fillLoop_length)
  moreover have "unat (toUint8 c) = c" using assms(2) by (simp add: toUint8_small)
  ultimately show ?thesis
    using drawBorder_nth[OF assms(1,3,4), of c] by simp
qed

theorem border_preset_frame_witness:
  "length (pixels newCdgRenderer) = CDG_WIDTH * CDG_HEIGHT \<and> (5::nat) < 16
   \<and> (3::nat) < CDG_WIDTH \<and> (100::nat) < CDG_HEIGHT
   \<and> unat (pixels (applyInstruction newCdgRenderer (BorderPreset 5)) ! (100 * CDG_WIDTH + 3)) = 5
   \<and> pixels (applyInstruction newCdgRenderer (BorderPreset 5)) ! (100 * CDG_WIDTH + 150) = 0"
  using border_preset_frame[of newCdgRenderer 5 3 100] border_preset_frame[of newCdgRenderer 5 150 100]
  by (simp add: newCdgRenderer_def cdg_consts)

subsection \<open>Tiles\<close>

lemma drawTilePixel_update:
  "drawTilePixel isXor c0 c1 tp sx sy row =
     (\<lambda>col px. px[(sy + row) * CDG_WIDTH + sx + col :=
              (\<lambda>v. if isXor then v XOR tileColor c0 c1 tp row col else tileColor c0 c1 tp row col)
                (pixelAt px ((sy + row) * CDG_WIDTH + sx + col))])"
  by (intro ext) (simp add: drawTilePixel_def tileColor_def Let_def add.assoc)

lemma drawTile_out_of_bounds:
  "tileColumn * 6 + 6 > 300 \<or> tileRow * 12 + 12 > 216 \<Longrightarrow>
   drawTile isXor c0 c1 tileRow tileColumn tp rn = rn"
  by (simp add: drawTile_def cdg_consts)

lemma drawTile_length:
  "length (pixels (drawTile isXor c0 c1 tileRow tileColumn tp rn)) = length (pixels rn)"
  by (simp add: drawTile_def Let_def drawTilePixel_update grid_loop_length)

lemma drawTile_nth:
  assumes inb: "tileColumn * 6 + 6 \<le> 300" "tileRow * 12 + 12 \<le> 216"
    and x: "x < CDG_WIDTH" and i: "y * CDG_WIDTH + x < length (pixels rn)"
  shows "pixels (drawTile isXor c0 c1 tileRow tileColumn tp rn) ! (y * CDG_WIDTH + x)
         = (if tileRow * 12 \<le> y \<and> y < tileRow * 12 + 12 \<and> tileColumn * 6 \<le> x \<and> x < tileColumn * 6 + 6
            then (if isXor
                  then pixels rn ! (y * CDG_WIDTH + x) XOR tileColor c0 c1 tp (y - tileRow * 12) (x - tileColumn * 6)
                  else tileColor c0 c1 tp (y - tileRow * 12) (x - tileColumn * 6))
            else pixels rn ! (y * CDG_WIDTH + x))"
proof -
  have w: "tileColumn * 6 + 6 \<le> CDG_WIDTH" using inb by (simp add: cdg_consts)
  have t: "CDG_TILE_WIDTH = 6" "CDG_TILE_HEIGHT = 12" by (simp_all add: cdg_consts)
  have "\<not> (tileColumn * 6 + 6 > CDG_WIDTH \<or> tileRow * 12 + 12 > CDG_HEIGHT)"
    using inb by (simp add: cdg_consts)
  then have "pixels (drawTile isXor c0 c1 tileRow tileColumn tp rn)
        = fold (\<lambda>row. fold (\<lambda>col px. px[(tileRow * 12 + row) * CDG_WIDTH + tileColumn * 6 + col :=
              (\<lambda>v. if isXor then v XOR tileColor c0 c1 tp row col else tileColor c0 c1 tp row col)
                (pixelAt px ((tileRow * 12 + row) * CDG_WIDTH + tileColumn * 6 + col))]) [0..<6]) [0..<12] (pixels rn)"
    unfolding drawTile_def Let_def drawTilePixel_update t by simp
  then show ?thesis
    using grid_loop_nth[OF x w i, of "tileRow * 12"
        "\<lambda>row col v. if isXor then v XOR tileColor c0 c1 tp row col else tileColor c0 c1 tp row col" 0 0 12]
    by simp
qed

lemma cell_decompose: "j = (j div CDG_WIDTH) * CDG_WIDTH + j mod CDG_WIDTH \<and> j mod CDG_WIDTH < CDG_WIDTH"
  by (simp add: cdg_consts)

lemma drawTile_xor_twice_pixels:
  "pixels (drawTile True c0 c1 tileRow tileColumn tp (drawTile True c0 c1 tileRow tileColumn tp rn))
   = pixels rn"
proof (cases "tileColumn * 6 + 6 \<le> 300 \<and> tileRow * 12 + 12 \<le> 216")
  case False
  then show ?thesis by (simp add: drawTile_out_of_bounds not_le)
next
  case True
  let ?rn1 = "drawTile True c0 c1 tileRow tileColumn tp rn"
  show ?thesis
  proof (rule nth_equalityI)
    show "length (pixels (drawTile True c0 c1 tileRow tileColumn tp ?rn1)) = length (pixels rn)"
      by (simp add: drawTile_length)
  next
    fix j assume "j < length (pixels (drawTile True c0 c1 tileRow tileColumn tp ?rn1))"
    then have j: "j < length (pixels rn)" by (simp add: drawTile_length)
    define x y where "x = j mod CDG_WIDTH" and "y = j div CDG_WIDTH"
    have jxy: "j = y * CDG_WIDTH + x" and x: "x < CDG_WIDTH"
      using cell_decompose[of j] by (simp_all add: x_def y_def)
    have i: "y * CDG_WIDTH + x < length (pixels rn)" using j jxy by simp
    have i1: "y * CDG_WIDTH + x < length (pixels ?rn1)" using i by (simp add: drawTile_length)
    show "pixels (drawTile True c0 c1 tileRow tileColumn tp ?rn1) ! j = pixels rn ! j"
      unfolding jxy
      using True drawTile_nth[OF _ _ x i1, of tileColumn tileRow True c0 c1 tp]
        drawTile_nth[OF _ _ x i, of tileColumn tileRow True c0 c1 tp]
      by (simp add: xor.assoc)
  qed
qed

lemma drawTile_others:
  "palette (drawTile isXor c0 c1 tr tc tp rn) = palette rn"
  "transparentColor (drawTile isXor c0 c1 tr tc tp rn) = transparentColor rn"
  "borderColor (drawTile isXor c0 c1 tr tc tp rn) = borderColor rn"
  "hOffset (drawTile isXor c0 c1 tr tc tp rn) = hOffset rn"
  "vOffset (drawTile isXor c0 c1 tr tc tp rn) = vOffset rn"
  "CdgRenderer.more (drawTile isXor c0 c1 tr tc tp rn) = CdgRenderer.more rn"
  by (simp_all add: drawTile_def Let_def)

text \<open>
  Claim C8. For every renderer state and every \<open>TileBlock\<close> instruction with
  \<open>xor = true\<close>, applying the instruction twice in succession restores every pixel of
  the grid (and the whole renderer state) to what it was before the first application.
  This holds for every tile position: a tile whose box leaves the grid changes nothing,
  and an in-bounds tile is combined with \<open>XOR\<close> cell by cell (\<open>drawTile_nth\<close>).
\<close>

theorem tile_xor_twice:
  "applyInstruction (applyInstruction rn (TileBlock True c0 c1 tileRow tileColumn tp))
     (TileBlock True c0 c1 tileRow tileColumn tp) = rn"
  by (rule CdgRenderer.equality) (simp_all add: drawTile_xor_twice_pixels drawTile_others)

subsection \<open>Cells stay palette indices\<close>

lemma fold_preserves:
  assumes "\<And>k s. Q s \<Longrightarrow> Q (f k s)"
  shows "Q s \<Longrightarrow> Q (fold f ks s)"
  by (induction ks arbitrary: s) (simp_all add: assms)

lemma cellsInRange_update:
  "cellsInRange ps \<Longrightarrow> unat v < 16 \<Longrightarrow> cellsInRange (ps[i := v])"
  using set_update_subset_insert[of ps i v] by (auto simp: cellsInRange_def)

lemma cellsInRange_replicate: "unat v < 16 \<Longrightarrow> cellsInRange (replicate n v)"
  by (simp add: cellsInRange_def)

lemma cellsInRange_pixelAt: "cellsInRange ps \<Longrightarrow> unat (pixelAt ps k) < 16"
  by (simp add: cellsInRange_def pixelAt_def)

lemma xor_in_range:
  fixes v w :: byte
  assumes "unat v < 16" "unat w < 16"
  shows "unat (v XOR w) < 16"
proof -
  have "take_bit 4 (unat v) = unat v" "take_bit 4 (unat w) = unat w"
    using assms by (simp_all add: take_bit_nat_eq_self_iff)
  then have "take_bit 4 (unat v XOR unat w) = unat v XOR unat w" by simp
  then have "unat v XOR unat w < 2 ^ 4" by (simp only: take_bit_nat_eq_self_iff)
  then show ?thesis by (simp add: unsigned_xor_eq)
qed

lemma toUint8_in_range: "c < 16 \<Longrightarrow> unat (toUint8 c) < 16"
  by (simp add: toUint8_small)

lemma tileColor_in_range: "c0 < 16 \<Longrightarrow> c1 < 16 \<Longrightarrow> unat (tileColor c0 c1 tp row col) < 16"
  by (simp add: tileColor_def toUint8_in_range)

lemma fillLoop_in_range:
  assumes "c < 16"
  shows "cellsInRange ps \<Longrightarrow> cellsInRange (fillLoop y0 y1 x0 x1 c ps)"
  unfolding fillLoop_def
  by (intro fold_preserves[where Q = cellsInRange] cellsInRange_update toUint8_in_range assms)

lemma drawBorder_in_range:
  "c < 16 \<Longrightarrow> cellsInRange (pixels rn) \<Longrightarrow> cellsInRange (pixels (drawBorder c rn))"
  by (simp add: drawBorder_def Let_def fillLoop_in_range)

lemma drawTile_in_range:
  assumes "c0 < 16" "c1 < 16" "cellsInRange (pixels rn)"
  shows "cellsInRange (pixels (drawTile isXor c0 c1 tr tc tp rn))"
proof -
  have step: "cellsInRange (drawTilePixel isXor c0 c1 tp sx sy row col px)"
    if "cellsInRange px" for sx sy row col px
    unfolding drawTilePixel_update
    using that assms(1,2)
    by (auto intro!: cellsInRange_update xor_in_range cellsInRange_pixelAt tileColor_in_range)
  show ?thesis
    unfolding drawTile_def Let_def
    using assms(3)
    by (auto intro!: fold_preserves[where Q = cellsInRange] step)
qed

lemma scrollDisplay_in_range:
  assumes "c < 16" "cellsInRange (pixels rn)"
  shows "cellsInRange (pixels (scrollDisplay copy c hs vs rn))"
proof -
  have step: "cellsInRange (scrollPixel copy c hDir vDir (pixels rn) y x np)"
    if "cellsInRange np" for hDir vDir y x np
    unfolding scrollPixel_def Let_def
    using that assms
    by (auto intro!: cellsInRange_update cellsInRange_pixelAt toUint8_in_range)
  have zero: "cellsInRange (replicate (CDG_WIDTH * CDG_HEIGHT) 0)"
    by (simp add: cellsInRange_replicate)
  show ?thesis
    unfolding scrollDisplay_def Let_def
    using zero
    by (auto intro!: fold_preserves[where Q = cellsInRange] step)
qed

lemma applyInstruction_in_range:
  assumes "colorsInRange inst" "cellsInRange (pixels rn)"
  shows "cellsInRange (pixels (applyInstruction rn inst))"
  using assms
  by (cases inst)
     (auto simp: Let_def cellsInRange_replicate toUint8_in_range
           intro: drawBorder_in_range drawTile_in_range scrollDisplay_in_range)

lemma and_0x0f_less: "(n::nat) AND 0x0f < 16"
  by (simp add: and_0x0f)

lemma parseInstruction_colors:
  "parseInstruction opc d = Some inst \<Longrightarrow> colorsInRange inst"
  by (auto simp: parseInstruction_def and_0x0f_less split: if_splits)

text \<open>
  Claim C5. If every cell of the grid holds a value in 0..15, then after
  \<open>applyInstruction\<close> of any instruction that the decoder produces every cell still holds
  a value in 0..15. This covers memory preset, border preset, tile write, tile XOR and both
  scroll modes (lemmas \<open>drawBorder_in_range\<close>, \<open>drawTile_in_range\<close>,
  \<open>scrollDisplay_in_range\<close>).
\<close>

theorem decoded_instruction_keeps_cells_in_range:
  assumes "parseInstruction opc d = Some inst"
    and "\<forall>p \<in> set (pixels rn). unat p < 16"
  shows "\<forall>p \<in> set (pixels (applyInstruction rn inst)). unat p < 16"
  using applyInstruction_in_range[OF parseInstruction_colors[OF assms(1)], of rn] assms(2)
  by (simp add: cellsInRange_def)


theorem decoded_instruction_keeps_cells_in_range_witness:
  "parseInstruction 38 [0x41, 0x22, 0, 0, 0x3F, 0x21, 0, 0, 0, 0, 0, 0, 0, 0, 0, 0]
     = Some (TileBlock True 1 2 0 0 [63, 33, 0, 0, 0, 0, 0, 0, 0, 0, 0, 0])
   \<and> cellsInRange (pixels newCdgRenderer)
   \<and> cellsInRange (pixels (applyInstruction newCdgRenderer
         (TileBlock True 1 2 0 0 [63, 33, 0, 0, 0, 0, 0, 0, 0, 0, 0, 0])))"
proof -
  have d: "parseInstruction 38 [0x41, 0x22, 0, 0, 0x3F, 0x21, 0, 0, 0, 0, 0, 0, 0, 0, 0, 0]
     = Some (TileBlock True 1 2 0 0 [63, 33, 0, 0, 0, 0, 0, 0, 0, 0, 0, 0])"
    by (simp add: parseInstruction_def cdg_inst byteAt_def subarray_def)
  have z: "\<forall>p \<in> set (pixels newCdgRenderer). unat p < 16"
    by (simp add: newCdgRenderer_def)
  show ?thesis
    using decoded_instruction_keeps_cells_in_range[OF d z] d z
    by (simp add: cellsInRange_def)
qed

subsection \<open>The visible frame\<close>

lemma fold_nested:
  "fold (\<lambda>y. fold (F y) xs) ys s = fold (\<lambda>(y, x). F y x) (List.product ys xs) s"
proof (induction ys arbitrary: s)
  case Nil
  show ?case by simp
next
  case (Cons y ys)
  have "(\<lambda>(y, x). F y x) \<circ> Pair y = F y" by (rule ext) simp
  then show ?case by (simp add: fold_map Cons.IH)
qed

lemma getVisibleRgbaFrame_flat:
  "getVisibleRgbaFrame rn =
     fold (frameStep rn) (List.product [0..<CDG_VISIBLE_HEIGHT] [0..<CDG_VISIBLE_WIDTH])
       (Inr (replicate (CDG_VISIBLE_WIDTH * CDG_VISIBLE_HEIGHT * 4) 0))"
  unfolding getVisibleRgbaFrame_def frameStep_def by (rule fold_nested)

lemma visiblePixel_cell:
  "visiblePixel rn y x out =
     (case visibleCell rn y x of
        None \<Rightarrow> Inl TypeError
      | Some c \<Rightarrow> Inr (out[(y * CDG_VISIBLE_WIDTH + x) * 4 := c ! 0,
                           (y * CDG_VISIBLE_WIDTH + x) * 4 + 1 := c ! 1,
                           (y * CDG_VISIBLE_WIDTH + x) * 4 + 2 := c ! 2,
                           (y * CDG_VISIBLE_WIDTH + x) * 4 + 3 := c ! 3]))"
  by (simp add: visiblePixel_def visibleCell_def Let_def split: option.splits)

lemma frameStep_Inl: "frameStep rn c (Inl e) = Inl e"
  by (cases c) (simp add: frameStep_def)

lemma fold_frameStep_Inl: "fold (frameStep rn) cs (Inl e) = Inl e"
  by (induction cs) (simp_all add: frameStep_Inl)

lemma frameStep_bad:
  "visibleCell rn y x = None \<Longrightarrow> frameStep rn (y, x) (Inr out) = Inl TypeError"
  by (simp add: frameStep_def visiblePixel_cell)

lemma frameStep_only_TypeError:
  "acc = Inl TypeError \<or> (\<exists>out. acc = Inr out) \<Longrightarrow>
   frameStep rn c acc = Inl TypeError \<or> (\<exists>out. frameStep rn c acc = Inr out)"
  by (cases c) (auto simp: frameStep_def visiblePixel_cell split: option.splits)

lemma fold_frameStep_only_TypeError:
  "acc = Inl TypeError \<or> (\<exists>out. acc = Inr out) \<Longrightarrow>
   fold (frameStep rn) cs acc = Inl TypeError \<or> (\<exists>out. fold (frameStep rn) cs acc = Inr out)"
proof (induction cs arbitrary: acc)
  case Nil
  then show ?case by simp
next
  case (Cons c cs)
  show ?case using Cons.IH[OF frameStep_only_TypeError[OF Cons.prems]] by simp
qed

lemma fold_frameStep_bad:
  assumes "(y, x) \<in> set cs" "visibleCell rn y x = None"
  shows "fold (frameStep rn) cs (Inr out) = Inl TypeError"
proof -
  from assms(1) obtain bef aft where cs: "cs = bef @ (y, x) # aft"
    by (meson split_list)
  have "fold (frameStep rn) bef (Inr out) = Inl TypeError
        \<or> (\<exists>q. fold (frameStep rn) bef (Inr out) = Inr q)"
    by (rule fold_frameStep_only_TypeError) simp
  then have "frameStep rn (y, x) (fold (frameStep rn) bef (Inr out)) = Inl TypeError"
    using assms(2) by (auto simp: frameStep_Inl frameStep_bad)
  then show ?thesis by (simp add: cs fold_frameStep_Inl)
qed

lemma frame_throws:
  assumes "y < CDG_VISIBLE_HEIGHT" "x < CDG_VISIBLE_WIDTH" "visibleCell rn y x = None"
  shows "getVisibleRgbaFrame rn = Inl TypeError"
  unfolding getVisibleRgbaFrame_flat
  using assms by (intro fold_frameStep_bad[of y x]) simp_all


lemma frameStep_good:
  assumes "visibleCell rn y x = Some c"
  shows "frameStep rn (y, x) (Inr out) =
           Inr (out[(y * CDG_VISIBLE_WIDTH + x) * 4 := c ! 0,
                     (y * CDG_VISIBLE_WIDTH + x) * 4 + 1 := c ! 1,
                     (y * CDG_VISIBLE_WIDTH + x) * 4 + 2 := c ! 2,
                     (y * CDG_VISIBLE_WIDTH + x) * 4 + 3 := c ! 3])"
  using assms by (simp add: frameStep_def visiblePixel_cell)

lemma fold_frameStep_good:
  assumes "\<And>y x. (y, x) \<in> set cs \<Longrightarrow> visibleCell rn y x \<noteq> None"
  shows "\<exists>q. fold (frameStep rn) cs (Inr out) = Inr q \<and> length q = length out
             \<and> (\<forall>t. (\<forall>y x k. (y, x) \<in> set cs \<longrightarrow> k < 4 \<longrightarrow> t \<noteq> (y * CDG_VISIBLE_WIDTH + x) * 4 + k)
                      \<longrightarrow> q ! t = out ! t)"
  using assms
proof (induction cs arbitrary: out)
  case Nil
  then show ?case by simp
next
  case (Cons c cs)
  obtain y x where c: "c = (y, x)" by (cases c)
  from Cons.prems[of y x] c obtain v where v: "visibleCell rn y x = Some v" by auto
  let ?d = "(y * CDG_VISIBLE_WIDTH + x) * 4"
  let ?r1 = "out[?d := v ! 0, ?d + 1 := v ! 1, ?d + 2 := v ! 2, ?d + 3 := v ! 3]"
  have step: "frameStep rn c (Inr out) = Inr ?r1" unfolding c by (rule frameStep_good[OF v])
  have "\<And>y x. (y, x) \<in> set cs \<Longrightarrow> visibleCell rn y x \<noteq> None" using Cons.prems by simp
  from Cons.IH[OF this, where out = ?r1] obtain q where
    q: "fold (frameStep rn) cs (Inr ?r1) = Inr q" "length q = length ?r1"
       "\<And>t. (\<forall>y x k. (y, x) \<in> set cs \<longrightarrow> k < 4 \<longrightarrow> t \<noteq> (y * CDG_VISIBLE_WIDTH + x) * 4 + k) \<Longrightarrow> q ! t = ?r1 ! t"
    by blast
  have "q ! t = out ! t"
    if t: "\<forall>y x k. (y, x) \<in> set (c # cs) \<longrightarrow> k < 4 \<longrightarrow> t \<noteq> (y * CDG_VISIBLE_WIDTH + x) * 4 + k" for t
  proof -
    have "t \<noteq> ?d + 0" "t \<noteq> ?d + 1" "t \<noteq> ?d + 2" "t \<noteq> ?d + 3"
      using t[rule_format, of y x 0] t[rule_format, of y x 1] t[rule_format, of y x 2]
        t[rule_format, of y x 3] unfolding c by simp_all
    then have "?r1 ! t = out ! t" by simp
    moreover have "q ! t = ?r1 ! t" using t by (intro q(3)) simp
    ultimately show ?thesis by simp
  qed
  with q(1,2) step show ?case by simp
qed

lemma fold_frameStep_cell:
  assumes good: "\<And>y x. (y, x) \<in> set cs \<Longrightarrow> visibleCell rn y x \<noteq> None \<and> x < CDG_VISIBLE_WIDTH"
    and dist: "distinct cs" and mem: "(y, x) \<in> set cs"
    and len: "(y * CDG_VISIBLE_WIDTH + x) * 4 + 3 < length out" and k: "k < 4"
    and v: "visibleCell rn y x = Some v"
  shows "\<exists>q. fold (frameStep rn) cs (Inr out) = Inr q \<and> length q = length out
             \<and> q ! ((y * CDG_VISIBLE_WIDTH + x) * 4 + k) = v ! k"
proof -
  from mem obtain bef aft where cs: "cs = bef @ (y, x) # aft" by (meson split_list)
  with dist have notin: "(y, x) \<notin> set aft" by simp
  have gb: "\<And>y x. (y, x) \<in> set bef \<Longrightarrow> visibleCell rn y x \<noteq> None" using good cs by auto
  have ga: "\<And>y x. (y, x) \<in> set aft \<Longrightarrow> visibleCell rn y x \<noteq> None" using good cs by auto
  have xa: "\<And>y' x'. (y', x') \<in> set aft \<Longrightarrow> x' < CDG_VISIBLE_WIDTH" using good cs by auto
  have x: "x < CDG_VISIBLE_WIDTH" using good mem by simp
  let ?d = "(y * CDG_VISIBLE_WIDTH + x) * 4"
  from fold_frameStep_good[OF gb, where out = out] obtain q1 where
    q1: "fold (frameStep rn) bef (Inr out) = Inr q1" "length q1 = length out" by blast
  let ?q2 = "q1[?d := v ! 0, ?d + 1 := v ! 1, ?d + 2 := v ! 2, ?d + 3 := v ! 3]"
  have q2: "frameStep rn (y, x) (Inr q1) = Inr ?q2" by (rule frameStep_good[OF v])
  have at: "?q2 ! (?d + k) = v ! k"
  proof -
    from k consider "k = 0" | "k = 1" | "k = 2" | "k = 3" by linarith
    then show ?thesis using len q1(2) by cases simp_all
  qed
  from fold_frameStep_good[OF ga, where out = ?q2] obtain q3 where
    q3: "fold (frameStep rn) aft (Inr ?q2) = Inr q3" "length q3 = length ?q2"
        "\<And>t. (\<forall>y x k. (y, x) \<in> set aft \<longrightarrow> k < 4 \<longrightarrow> t \<noteq> (y * CDG_VISIBLE_WIDTH + x) * 4 + k) \<Longrightarrow> q3 ! t = ?q2 ! t"
    by blast
  have "\<forall>y' x' k'. (y', x') \<in> set aft \<longrightarrow> k' < 4 \<longrightarrow> ?d + k \<noteq> (y' * CDG_VISIBLE_WIDTH + x') * 4 + k'"
  proof (intro allI impI notI)
    fix y' x' k' assume a: "(y', x') \<in> set aft" "k' < (4::nat)"
      and e: "?d + k = (y' * CDG_VISIBLE_WIDTH + x') * 4 + k'"
    from a xa have x': "x' < CDG_VISIBLE_WIDTH" by simp
    from e k a(2) have "y * CDG_VISIBLE_WIDTH + x = y' * CDG_VISIBLE_WIDTH + x'" by arith
    then have "(y * CDG_VISIBLE_WIDTH + x) div CDG_VISIBLE_WIDTH = (y' * CDG_VISIBLE_WIDTH + x') div CDG_VISIBLE_WIDTH"
      and "(y * CDG_VISIBLE_WIDTH + x) mod CDG_VISIBLE_WIDTH = (y' * CDG_VISIBLE_WIDTH + x') mod CDG_VISIBLE_WIDTH"
      by simp_all
    with x x' have "y = y' \<and> x = x'" by simp
    with a(1) notin show False by simp
  qed
  then have "q3 ! (?d + k) = ?q2 ! (?d + k)" by (rule q3(3))
  with at q3(1,2) q2 q1 show ?thesis by (simp add: cs)
qed

lemma frame_cell:
  assumes good: "\<And>y x. y < CDG_VISIBLE_HEIGHT \<Longrightarrow> x < CDG_VISIBLE_WIDTH \<Longrightarrow> visibleCell rn y x \<noteq> None"
    and y: "y < CDG_VISIBLE_HEIGHT" and x: "x < CDG_VISIBLE_WIDTH" and k: "k < 4"
    and v: "visibleCell rn y x = Some v"
  shows "\<exists>q. getVisibleRgbaFrame rn = Inr q
             \<and> length q = CDG_VISIBLE_WIDTH * CDG_VISIBLE_HEIGHT * 4
             \<and> q ! ((y * CDG_VISIBLE_WIDTH + x) * 4 + k) = v ! k"
proof -
  let ?cs = "List.product [0..<CDG_VISIBLE_HEIGHT] [0..<CDG_VISIBLE_WIDTH]"
  have g: "\<And>y x. (y, x) \<in> set ?cs \<Longrightarrow> visibleCell rn y x \<noteq> None \<and> x < CDG_VISIBLE_WIDTH"
    using good by simp
  have d: "distinct ?cs" by (simp add: distinct_product)
  have m: "(y, x) \<in> set ?cs" using x y by simp
  have "Suc (y * CDG_VISIBLE_WIDTH + x) \<le> CDG_VISIBLE_HEIGHT * CDG_VISIBLE_WIDTH"
    using x y unfolding cdg_consts by arith
  then have l: "(y * CDG_VISIBLE_WIDTH + x) * 4 + 3
      < length (replicate (CDG_VISIBLE_WIDTH * CDG_VISIBLE_HEIGHT * 4) (0::byte))"
    by (simp add: mult.commute)
  show ?thesis
    unfolding getVisibleRgbaFrame_flat
    using fold_frameStep_cell[OF g d m l k v] by simp
qed

text \<open>
  Claim C2 says that the stored viewport offsets stay in 0..5 and 0..11, so that the reads
  of \<open>getVisibleRgbaFrame\<close> stay inside the grid. The interface \<open>CdgScroll\<close> documents
  these ranges (\<open>hOffset: number // 0-5\<close>, \<open>vOffset: number // 0-11\<close>), but the decoder
  masks with \<open>0x07\<close> and \<open>0x0f\<close> and \<open>applyInstruction\<close> stores the fields as they are.
  On the packet below (command \<open>0x09\<close>, opcode 20, data bytes 1 and 2 equal to 7 and 15)
  the renderer ends with \<open>hOffset = 7\<close> and \<open>vOffset = 15\<close>, and the read of the visible
  frame leaves the grid and throws.
\<close>

theorem scroll_offsets_stored_unclamped:
  "packets (parseCdgFile ([9, 20, 0, 0, 0, 7, 15] @ replicate 17 0))
     = [\<lparr> timeMs = 0, instruction = Some (Scroll False 0 0 0 7 15) \<rparr>]
   \<and> hOffset (applyInstruction newCdgRenderer (Scroll False 0 0 0 7 15)) = 7
   \<and> vOffset (applyInstruction newCdgRenderer (Scroll False 0 0 0 7 15)) = 15
   \<and> getVisibleRgbaFrame (applyInstruction newCdgRenderer (Scroll False 0 0 0 7 15)) = Inl TypeError"
proof -
  let ?rn = "applyInstruction newCdgRenderer (Scroll False 0 0 0 7 15)"
  have "parsePacket ([9, 20, 0, 0, 0, 7, 15] @ replicate 17 0) 0 []
          = [\<lparr> timeMs = 0, instruction = Some (Scroll False 0 0 0 7 15) \<rparr>]"
    by (simp add: parsePacket_def parseInstruction_def cdg_inst cdg_consts byteAt_def subarray_def
        jsDiv_0 jsMul_0)
  then have d: "packets (parseCdgFile ([9, 20, 0, 0, 0, 7, 15] @ replicate 17 0))
     = [\<lparr> timeMs = 0, instruction = Some (Scroll False 0 0 0 7 15) \<rparr>]"
    by (simp add: parseCdgFile_def cdg_consts)
  have "visibleCell ?rn 188 287 = None"
    by (simp add: visibleCell_def newCdgRenderer_def elemAt_def cdg_consts)
  then have "getVisibleRgbaFrame ?rn = Inl TypeError"
    by (intro frame_throws[of 188 287]) (simp_all add: cdg_consts)
  with d show ?thesis by simp
qed

section \<open>Properties of the player\<close>

subsection \<open>Operations that are ignored\<close>

text \<open>
  Claim C10. When the clock is not playing, or is playing but paused,
  \<open>syncToAudioTime\<close> returns at once for every time value: it replays no instruction,
  changes neither \<open>currentTime\<close> nor any other field of the player or of the renderer,
  and emits no event.
\<close>

theorem sync_ignored_unless_playing:
  assumes "\<not> playing (state p) \<or> paused (state p)"
  shows "syncToAudioTime now t p = Done p"
  using assms by (auto simp: syncToAudioTime_def)

theorem sync_ignored_unless_playing_witness:
  "\<not> playing (state newCdgPlayer) \<and> syncToAudioTime 5 100 newCdgPlayer = Done newCdgPlayer
   \<and> paused (state (newCdgPlayer\<lparr> cdgData := Some (parseCdgFile []),
                                  state := (state newCdgPlayer)\<lparr> playing := True, paused := True \<rparr> \<rparr>))
   \<and> syncToAudioTime 5 100 (newCdgPlayer\<lparr> cdgData := Some (parseCdgFile []),
                                  state := (state newCdgPlayer)\<lparr> playing := True, paused := True \<rparr> \<rparr>)
       = Done (newCdgPlayer\<lparr> cdgData := Some (parseCdgFile []),
                                  state := (state newCdgPlayer)\<lparr> playing := True, paused := True \<rparr> \<rparr>)"
  using sync_ignored_unless_playing[of newCdgPlayer 5 100]
    sync_ignored_unless_playing[of "newCdgPlayer\<lparr> cdgData := Some (parseCdgFile []),
                                  state := (state newCdgPlayer)\<lparr> playing := True, paused := True \<rparr> \<rparr>" 5 100]
  by (simp add: newCdgPlayer_def)

lemma stop_unloaded:
  "cdgData p = None \<Longrightarrow>
   stop p = emit (StopEvent ((state p)\<lparr> playing := False, paused := False, currentTime := 0 \<rparr>))
              (p\<lparr> animationFrame := False,
                  state := (state p)\<lparr> playing := False, paused := False, currentTime := 0 \<rparr> \<rparr>)"
  by (simp add: stop_def stopAnimationLoop_def Let_def getState_def emit_def)

text \<open>
  Claim C6, as amended. When no song is loaded, \<open>play\<close>, \<open>seek\<close> and \<open>syncToAudioTime\<close>
  return at once, with no change of the player or of the renderer and no event, and so
  does \<open>pause\<close> while the clock is not playing, which is the case whenever no song is
  loaded (\<open>idle_init\<close>, \<open>idle_loadSong\<close>, \<open>idle_stop\<close> and \<open>idle_operations\<close> below).
  \<open>stop\<close> does not throw and leaves the renderer, the cursor and \<open>cdgData\<close> as they are,
  but it sets \<open>playing\<close> and \<open>paused\<close> to false and \<open>currentTime\<close> to 0, and it emits one
  \<open>stop\<close> event.
\<close>

theorem unloaded_operations:
  assumes "cdgData p = None"
  shows "play now1 now2 now3 p = Done p
       \<and> seek now t p = Done p
       \<and> syncToAudioTime now t p = Done p
       \<and> (\<not> playing (state p) \<longrightarrow> pause now p = p)
       \<and> renderer (stop p) = renderer p
       \<and> packetIndex (stop p) = packetIndex p
       \<and> cdgData (stop p) = None
       \<and> state (stop p) = (state p)\<lparr> playing := False, paused := False, currentTime := 0 \<rparr>
       \<and> emitted (stop p) = emitted p @ [StopEvent (state (stop p))]"
  using assms
  by (simp add: play_def seek_def syncToAudioTime_def pause_def stop_unloaded emit_def)

text \<open>
  Claim C6 as stated fails for \<open>stop\<close>: on the player as constructed, with no song
  loaded, \<open>stop\<close> emits a \<open>stop\<close> event.
\<close>

theorem stop_unloaded_emits:
  "cdgData newCdgPlayer = None \<and> emitted newCdgPlayer = []
   \<and> emitted (stop newCdgPlayer)
       = [StopEvent \<lparr> playing = False, paused = False, currentTime = 0, duration = 0, title = [],
                       singerName = [], songId = 0, fileType = ''cdg'', audioPath = None \<rparr>]
   \<and> stop newCdgPlayer \<noteq> newCdgPlayer"
proof -
  have e: "emitted (stop newCdgPlayer)
       = [StopEvent \<lparr> playing = False, paused = False, currentTime = 0, duration = 0, title = [],
                       singerName = [], songId = 0, fileType = ''cdg'', audioPath = None \<rparr>]"
    by (simp add: stop_def stopAnimationLoop_def Let_def getState_def emit_def newCdgPlayer_def)
  have "emitted newCdgPlayer = []" by (simp add: newCdgPlayer_def)
  with e have "stop newCdgPlayer \<noteq> newCdgPlayer" by auto
  with e show ?thesis by (simp add: newCdgPlayer_def)
qed

theorem unloaded_operations_witness:
  "cdgData newCdgPlayer = None \<and> \<not> playing (state newCdgPlayer)
   \<and> play 1 2 3 newCdgPlayer = Done newCdgPlayer
   \<and> seek 1 500 newCdgPlayer = Done newCdgPlayer
   \<and> syncToAudioTime 1 500 newCdgPlayer = Done newCdgPlayer
   \<and> pause 1 newCdgPlayer = newCdgPlayer
   \<and> renderer (stop newCdgPlayer) = newCdgRenderer
   \<and> length (emitted (stop newCdgPlayer)) = 1"
  using unloaded_operations[of newCdgPlayer 1 2 3 1 500]
  by (simp add: newCdgPlayer_def)

subsection \<open>Replay and seek\<close>

lemma replayLoop_takeWhile:
  "replayLoop pkts t p =
     p\<lparr> renderer := fold applyPacket
                       (takeWhile (\<lambda>pk. timeMs pk \<le> t) (drop (packetIndex p) pkts)) (renderer p),
        packetIndex := packetIndex p
                       + length (takeWhile (\<lambda>pk. timeMs pk \<le> t) (drop (packetIndex p) pkts)) \<rparr>"
proof (induction pkts t p rule: replayLoop.induct)
  case (1 pkts t p)
  show ?case
  proof (cases "packetIndex p < length pkts \<and> timeMs (pkts ! packetIndex p) \<le> t")
    case True
    then have d: "drop (packetIndex p) pkts = pkts ! packetIndex p # drop (Suc (packetIndex p)) pkts"
      by (simp add: Cons_nth_drop_Suc)
    have "replayLoop pkts t p =
            replayLoop pkts t (p\<lparr> renderer := applyPacket (pkts ! packetIndex p) (renderer p),
                                  packetIndex := packetIndex p + 1 \<rparr>)"
      using True replayLoop.simps[of pkts t p] by simp
    then show ?thesis
      using True 1[OF True] by (simp add: d)
  next
    case False
    then have e: "takeWhile (\<lambda>pk. timeMs pk \<le> t) (drop (packetIndex p) pkts) = []"
      by (cases "packetIndex p < length pkts") (simp_all add: Cons_nth_drop_Suc[symmetric])
    have "replayLoop pkts t p = p"
      using False replayLoop.simps[of pkts t p] by auto
    then show ?thesis by (simp add: e)
  qed
qed

lemma takeWhile_eq_filter_sorted:
  fixes f :: "'a \<Rightarrow> rat"
  shows "sorted (map f xs) \<Longrightarrow> takeWhile (\<lambda>x. f x \<le> t) xs = filter (\<lambda>x. f x \<le> t) xs"
proof (induction xs)
  case Nil
  show ?case by simp
next
  case (Cons x xs)
  show ?case
  proof (cases "f x \<le> t")
    case True
    with Cons show ?thesis by simp
  next
    case False
    with Cons.prems have "\<forall>y \<in> set xs. \<not> f y \<le> t" by auto
    then have "filter (\<lambda>x. f x \<le> t) xs = []" by (simp add: filter_empty_conv)
    with False show ?thesis by simp
  qed
qed

lemma takeWhile_resume:
  assumes "\<And>x. P x \<Longrightarrow> Q x"
  shows "takeWhile P xs @ takeWhile Q (drop (length (takeWhile P xs)) xs) = takeWhile Q xs"
proof (induction xs)
  case Nil
  show ?case by simp
next
  case (Cons x xs)
  then show ?case using assms by (cases "P x") simp_all
qed


lemma ms_nonneg: "0 \<le> jsMul (jsDiv (of_nat i) 300) 1000"
  unfolding jsMul_def jsDiv_def
  by (intro roundDouble_nonneg mult_nonneg_nonneg) simp_all

lemma ms_mono:
  assumes "i \<le> j"
  shows "jsMul (jsDiv (of_nat i) 300) 1000 \<le> jsMul (jsDiv (of_nat j) 300) 1000"
proof -
  have q: "(of_nat i :: rat) / 300 \<le> of_nat j / 300" using assms by simp
  have q0: "(0::rat) \<le> of_nat i / 300" by simp
  have r: "roundDouble (of_nat i / 300) \<le> roundDouble (of_nat j / 300)"
    by (rule roundDouble_mono[OF q0 q])
  have r0: "0 \<le> roundDouble (of_nat i / 300)" by (rule roundDouble_nonneg[OF q0])
  have m: "roundDouble (of_nat i / 300) * 1000 \<le> roundDouble (of_nat j / 300) * 1000"
    using r by simp
  have m0: "0 \<le> roundDouble (of_nat i / 300) * 1000" using r0 by simp
  show ?thesis unfolding jsMul_def jsDiv_def by (rule roundDouble_mono[OF m0 m])
qed

lemma parsePacket_cases:
  "parsePacket buf i acc = acc
   \<or> (\<exists>inst. parsePacket buf i acc
         = acc @ [\<lparr> timeMs = jsMul (jsDiv (of_nat i) 300) 1000, instruction = Some inst \<rparr>])"
  by (simp add: parsePacket_def Let_def cdg_consts split: option.splits)

lemma parse_times_sorted_upto:
  "sorted (map timeMs (fold (parsePacket buf) [0..<n] []))
   \<and> (\<forall>pk \<in> set (fold (parsePacket buf) [0..<n] []).
         \<exists>i<n. timeMs pk = jsMul (jsDiv (of_nat i) 300) 1000)"
proof (induction n)
  case 0
  show ?case by simp
next
  case (Suc n)
  let ?acc = "fold (parsePacket buf) [0..<n] []"
  let ?ms = "\<lambda>i::nat. jsMul (jsDiv (of_nat i) 300) 1000"
  have f: "fold (parsePacket buf) [0..<Suc n] [] = parsePacket buf n ?acc" by simp
  from parsePacket_cases[of buf n ?acc] show ?case
  proof
    assume "parsePacket buf n ?acc = ?acc"
    with Suc f show ?thesis by (auto intro: less_SucI)
  next
    assume "\<exists>inst. parsePacket buf n ?acc
         = ?acc @ [\<lparr> timeMs = ?ms n, instruction = Some inst \<rparr>]"
    then obtain inst where
      e: "parsePacket buf n ?acc = ?acc @ [\<lparr> timeMs = ?ms n, instruction = Some inst \<rparr>]"
      by blast
    have le: "timeMs pk \<le> ?ms n" if "pk \<in> set ?acc" for pk
    proof -
      from Suc that obtain i where "i < n" "timeMs pk = ?ms i" by blast
      then show ?thesis using ms_mono[of i n] by simp
    qed
    have "sorted (map timeMs (?acc @ [\<lparr> timeMs = ?ms n, instruction = Some inst \<rparr>]))"
      using Suc le by (simp add: sorted_append)
    moreover have "\<forall>pk \<in> set (?acc @ [\<lparr> timeMs = ?ms n, instruction = Some inst \<rparr>]).
                     \<exists>i<Suc n. timeMs pk = ?ms i"
      using Suc by (auto intro: less_SucI)
    ultimately show ?thesis unfolding f e by simp
  qed
qed

lemma parseCdgFile_sorted: "sorted (map timeMs (packets (parseCdgFile buf)))"
  using parse_times_sorted_upto[of buf "length buf div CDG_PACKET_SIZE"]
  by (simp add: parseCdgFile_def Let_def)

lemma parseCdgFile_times_nonneg: "pk \<in> set (packets (parseCdgFile buf)) \<Longrightarrow> 0 \<le> timeMs pk"
  using parse_times_sorted_upto[of buf "length buf div CDG_PACKET_SIZE"]
  by (auto simp: parseCdgFile_def Let_def ms_nonneg)

lemma playerOf_emitFrame:
  "renderer (playerOf (emitFrame q)) = renderer q"
  "state (playerOf (emitFrame q)) = state q"
  "packetIndex (playerOf (emitFrame q)) = packetIndex q"
  "cdgData (playerOf (emitFrame q)) = cdgData q"
  by (simp_all add: emitFrame_def emit_def split: sum.splits option.splits)

lemma seek_renderer:
  assumes "cdgData p = Some d"
  shows "renderer (playerOf (seek now t p))
         = fold applyPacket
             (takeWhile (\<lambda>pk. timeMs pk \<le> max 0 (min t (duration (state p)))) (packets d))
             (reset (renderer p))"
proof -
  let ?t = "max 0 (min t (duration (state p)))"
  let ?p1 = "p\<lparr> renderer := reset (renderer p), packetIndex := 0 \<rparr>"
  let ?p2 = "applyPacketsUpTo ?t ?p1"
  let ?p3 = "?p2\<lparr> state := (state ?p2)\<lparr> currentTime := ?t \<rparr> \<rparr>"
  let ?p4 = "if playing (state ?p3) \<and> \<not> paused (state ?p3) then ?p3\<lparr> startTime := now - ?t \<rparr> else ?p3"
  have r2: "renderer ?p2 = fold applyPacket (takeWhile (\<lambda>pk. timeMs pk \<le> ?t) (packets d)) (reset (renderer p))"
    using assms by (simp add: applyPacketsUpTo_def Let_def replayLoop_takeWhile)
  have r4: "renderer ?p4 = renderer ?p2" by simp
  have "renderer (playerOf (seek now t p)) = renderer (playerOf (emitFrame ?p4))"
    using assms unfolding seek_def Let_def
    by (simp add: emit_def split: outcome.splits)
  then show ?thesis
    unfolding playerOf_emitFrame r4 r2 .
qed

lemma newCdgRenderer_initial: "newCdgRenderer = initialRenderer"
  unfolding newCdgRenderer_def initialRenderer_def newPalette_def cdg_consts ..

lemma reset_initial:
  assumes "length (pixels rn) = CDG_WIDTH * CDG_HEIGHT"
  shows "reset rn = newCdgRenderer"
  using assms by (cases rn) (simp add: reset_def newCdgRenderer_def)

text \<open>
  Claim C3. For every loaded file and every time \<open>t\<close>, whatever the renderer holds when
  \<open>seek(t)\<close> is called (its grid has the size that the constructor gives it and that
  every method keeps, see \<open>grid_init\<close> to \<open>grid_loadSong\<close> below), the renderer after \<open>seek(t)\<close> is the initial renderer of the
  specification replayed, in order, with every decoded instruction whose timestamp is at
  most \<open>t\<close> clamped to \<open>[0, duration]\<close>; so \<open>getVisibleRgbaFrame\<close> gives the same result on
  both (the same buffer, or the same error). Nothing of the state before the call is left
  in the renderer.
\<close>

theorem seek_is_full_replay:
  assumes "cdgData p = Some (parseCdgFile buffer)"
    and "length (pixels (renderer p)) = CDG_WIDTH * CDG_HEIGHT"
  shows "renderer (playerOf (seek now t p))
           = replayFromStart (parseCdgFile buffer) (max 0 (min t (duration (state p))))
         \<and> getVisibleRgbaFrame (renderer (playerOf (seek now t p)))
           = getVisibleRgbaFrame
               (replayFromStart (parseCdgFile buffer) (max 0 (min t (duration (state p)))))"
  using seek_renderer[OF assms(1), of now t]
  by (simp add: replayFromStart_def takeWhile_eq_filter_sorted[OF parseCdgFile_sorted]
      reset_initial[OF assms(2)] newCdgRenderer_initial)

lemma twoPacketFile_parsed:
  "parseCdgFile twoPacketFile =
     \<lparr> packets = [\<lparr> timeMs = 0, instruction = Some (MemoryPreset 0 0) \<rparr>,
                  \<lparr> timeMs = 7505999378950827 / 2251799813685248, instruction = Some (DefineTransparent 0) \<rparr>],
       durationMs = 7505999378950827 / 1125899906842624 \<rparr>"
proof -
  have u: "[0..<2] = [0, Suc 0]" by (simp add: upt_rec)
  have p0: "parsePacket twoPacketFile 0 [] = [\<lparr> timeMs = 0, instruction = Some (MemoryPreset 0 0) \<rparr>]"
    by (simp add: twoPacketFile_def parsePacket_def parseInstruction_def cdg_inst cdg_consts
        byteAt_def subarray_def jsDiv_0 jsMul_0)
  have p1: "parsePacket twoPacketFile (Suc 0) acc
              = acc @ [\<lparr> timeMs = 7505999378950827 / 2251799813685248, instruction = Some (DefineTransparent 0) \<rparr>]" for acc
    by (simp add: twoPacketFile_def parsePacket_def parseInstruction_def cdg_inst cdg_consts
        byteAt_def subarray_def ms_of_1)
  have "length twoPacketFile div CDG_PACKET_SIZE = 2"
    by (simp add: twoPacketFile_def cdg_consts)
  then show ?thesis
    by (simp add: parseCdgFile_def Let_def u p0 p1 cdg_consts ms_of_2)
qed

text \<open>
  An instance: the renderer before the call holds a grid of colour 7, a changed palette, a
  transparent index, a border colour and viewport offsets; after \<open>seek(5)\<close> on the file of
  two packets it is the initial renderer with the transparent index 0 of the second
  packet.
\<close>

theorem seek_is_full_replay_witness:
  "cdgData (newCdgPlayer\<lparr> cdgData := Some (parseCdgFile twoPacketFile),
         renderer := \<lparr> pixels = replicate (CDG_WIDTH * CDG_HEIGHT) 7,
                       palette = replicate CDG_COLORS (Some \<lparr> r = 255, g = 0, b = 0 \<rparr>),
                       transparentColor = 3, borderColor = 5, hOffset = 2, vOffset = 4 \<rparr>,
         state := (state newCdgPlayer)\<lparr> duration := 7505999378950827 / 1125899906842624 \<rparr> \<rparr>)
     = Some (parseCdgFile twoPacketFile)
   \<and> length (pixels (renderer (newCdgPlayer\<lparr> cdgData := Some (parseCdgFile twoPacketFile),
         renderer := \<lparr> pixels = replicate (CDG_WIDTH * CDG_HEIGHT) 7,
                       palette = replicate CDG_COLORS (Some \<lparr> r = 255, g = 0, b = 0 \<rparr>),
                       transparentColor = 3, borderColor = 5, hOffset = 2, vOffset = 4 \<rparr>,
         state := (state newCdgPlayer)\<lparr> duration := 7505999378950827 / 1125899906842624 \<rparr> \<rparr>)))
     = CDG_WIDTH * CDG_HEIGHT
   \<and> renderer (playerOf (seek 0 5 (newCdgPlayer\<lparr> cdgData := Some (parseCdgFile twoPacketFile),
         renderer := \<lparr> pixels = replicate (CDG_WIDTH * CDG_HEIGHT) 7,
                       palette = replicate CDG_COLORS (Some \<lparr> r = 255, g = 0, b = 0 \<rparr>),
                       transparentColor = 3, borderColor = 5, hOffset = 2, vOffset = 4 \<rparr>,
         state := (state newCdgPlayer)\<lparr> duration := 7505999378950827 / 1125899906842624 \<rparr> \<rparr>)))
     = replayFromStart (parseCdgFile twoPacketFile) 5
   \<and> replayFromStart (parseCdgFile twoPacketFile) 5
     = initialRenderer\<lparr> transparentColor := 0 \<rparr>"
proof -
  let ?p = "newCdgPlayer\<lparr> cdgData := Some (parseCdgFile twoPacketFile),
         renderer := \<lparr> pixels = replicate (CDG_WIDTH * CDG_HEIGHT) 7,
                       palette = replicate CDG_COLORS (Some \<lparr> r = 255, g = 0, b = 0 \<rparr>),
                       transparentColor = 3, borderColor = 5, hOffset = 2, vOffset = 4 \<rparr>,
         state := (state newCdgPlayer)\<lparr> duration := 7505999378950827 / 1125899906842624 \<rparr> \<rparr>"
  have l: "cdgData ?p = Some (parseCdgFile twoPacketFile)" by simp
  have g: "length (pixels (renderer ?p)) = CDG_WIDTH * CDG_HEIGHT" by simp
  have c: "max 0 (min 5 (duration (state ?p))) = 5" by simp
  have "replayFromStart (parseCdgFile twoPacketFile) 5
     = newCdgRenderer\<lparr> transparentColor := 0 \<rparr>"
    unfolding replayFromStart_def newCdgRenderer_initial[symmetric]
    by (simp add: twoPacketFile_parsed applyPacket_def newCdgRenderer_def toUint8_def)
  then have v: "replayFromStart (parseCdgFile twoPacketFile) 5
     = initialRenderer\<lparr> transparentColor := 0 \<rparr>"
    unfolding newCdgRenderer_initial .
  show ?thesis
    using seek_is_full_replay[OF l g, of 0 5] v unfolding c by simp
qed

subsection \<open>The grid keeps its size\<close>

text \<open>
  The grid of the renderer has \<open>CDG_WIDTH * CDG_HEIGHT\<close> cells in the player as
  constructed, and every instruction and every method of the player keeps that size.
\<close>

lemma scrollPixel_length:
  "length (scrollPixel copy c hDir vDir old y x np) = length np"
  by (simp add: scrollPixel_def Let_def)

lemma scrollDisplay_length:
  "length (pixels (scrollDisplay copy c hs vs rn)) = CDG_WIDTH * CDG_HEIGHT"
proof -
  have "length (fold (\<lambda>y. fold (scrollPixel copy c hDir vDir old y) xs) ys np) = length np"
    for hDir vDir old xs ys np
    by (rule fold_preserves[where Q = "\<lambda>s. length s = length np"],
        rule fold_preserves[where Q = "\<lambda>s. length s = length np"])
       (simp_all add: scrollPixel_length)
  then show ?thesis by (simp add: scrollDisplay_def Let_def)
qed

lemma applyInstruction_grid:
  assumes "length (pixels rn) = CDG_WIDTH * CDG_HEIGHT"
  shows "length (pixels (applyInstruction rn inst)) = CDG_WIDTH * CDG_HEIGHT"
  using assms
  by (cases inst)
     (simp_all add: Let_def drawBorder_def fillLoop_length drawTile_length scrollDisplay_length)

lemma replay_grid:
  assumes "length (pixels rn) = CDG_WIDTH * CDG_HEIGHT"
  shows "length (pixels (fold applyPacket pks rn)) = CDG_WIDTH * CDG_HEIGHT"
  using assms
  by (induction pks arbitrary: rn)
     (simp_all add: applyPacket_def applyInstruction_grid split: option.splits)

lemma reset_grid: "length (pixels (reset rn)) = length (pixels rn)"
  by (simp add: reset_def)

lemma grid_init: "length (pixels (renderer newCdgPlayer)) = CDG_WIDTH * CDG_HEIGHT"
  by (simp add: newCdgPlayer_def newCdgRenderer_def)

lemma grid_replayLoop:
  assumes "length (pixels (renderer p)) = CDG_WIDTH * CDG_HEIGHT"
  shows "length (pixels (renderer (replayLoop pkts t p))) = CDG_WIDTH * CDG_HEIGHT"
  using assms by (simp add: replayLoop_takeWhile replay_grid)

lemma grid_applyPackets:
  assumes "length (pixels (renderer p)) = CDG_WIDTH * CDG_HEIGHT"
  shows "length (pixels (renderer (applyPacketsUpTo t p))) = CDG_WIDTH * CDG_HEIGHT"
    and "length (pixels (renderer (applyPacketsFromTo a t p))) = CDG_WIDTH * CDG_HEIGHT"
  using assms
  by (simp_all add: applyPacketsUpTo_def applyPacketsFromTo_def Let_def grid_replayLoop
      split: option.splits)

lemma grid_stop:
  assumes "length (pixels (renderer p)) = CDG_WIDTH * CDG_HEIGHT"
  shows "length (pixels (renderer (stop p))) = CDG_WIDTH * CDG_HEIGHT"
  using assms by (simp add: stop_def stopAnimationLoop_def Let_def emit_def reset_grid)

lemma grid_pause:
  assumes "length (pixels (renderer p)) = CDG_WIDTH * CDG_HEIGHT"
  shows "length (pixels (renderer (pause now p))) = CDG_WIDTH * CDG_HEIGHT"
  using assms by (simp add: pause_def stopAnimationLoop_def Let_def emit_def)

lemma renderer_after_frame:
  assumes "\<And>x. renderer (playerOf (F x)) = renderer x"
  shows "renderer (playerOf (case emitFrame q of Thrown e q' \<Rightarrow> Thrown e q' | Done p5 \<Rightarrow> F p5))
         = renderer q"
  using playerOf_emitFrame(1)[of q] assms
  by (cases "emitFrame q") simp_all

lemma grid_seek:
  assumes "length (pixels (renderer p)) = CDG_WIDTH * CDG_HEIGHT"
  shows "length (pixels (renderer (playerOf (seek now t p)))) = CDG_WIDTH * CDG_HEIGHT"
proof (cases "cdgData p")
  case None
  with assms show ?thesis by (simp add: seek_def)
next
  case (Some d)
  show ?thesis
    using assms unfolding seek_renderer[OF Some]
    by (intro replay_grid) (simp add: reset_grid)
qed

lemma grid_syncFinish:
  assumes "length (pixels (renderer p)) = CDG_WIDTH * CDG_HEIGHT"
  shows "length (pixels (renderer (playerOf (syncFinish t p)))) = CDG_WIDTH * CDG_HEIGHT"
  using grid_stop[of "p\<lparr> state := (state p)\<lparr> currentTime := t \<rparr> \<rparr>"] assms
  by (simp add: syncFinish_def Let_def emit_def)

lemma grid_sync:
  assumes "length (pixels (renderer p)) = CDG_WIDTH * CDG_HEIGHT"
  shows "length (pixels (renderer (playerOf (syncToAudioTime now t p)))) = CDG_WIDTH * CDG_HEIGHT"
  using assms
  by (simp add: syncToAudioTime_def grid_syncFinish grid_seek grid_applyPackets)

lemma grid_update:
  assumes "length (pixels (renderer p)) = CDG_WIDTH * CDG_HEIGHT"
  shows "length (pixels (renderer (playerOf (update now p)))) = CDG_WIDTH * CDG_HEIGHT"
proof (cases "\<not> playing (state p) \<or> paused (state p)")
  case True
  with assms show ?thesis by (simp add: update_def)
next
  case False
  let ?t = "now - startTime p"
  let ?p1 = "applyPacketsFromTo (currentTime (state p)) ?t p"
  let ?p2 = "?p1\<lparr> state := (state ?p1)\<lparr> currentTime := ?t \<rparr> \<rparr>"
  have g2: "length (pixels (renderer ?p2)) = CDG_WIDTH * CDG_HEIGHT"
    using grid_applyPackets(2)[OF assms] by simp
  show ?thesis
  proof (cases "emitFrame ?p2")
    case (Thrown e q)
    with playerOf_emitFrame(1)[of ?p2] g2 False show ?thesis
      by (simp add: update_def Let_def)
  next
    case (Done p3)
    with playerOf_emitFrame(1)[of ?p2] g2 have g3: "length (pixels (renderer p3)) = CDG_WIDTH * CDG_HEIGHT"
      by simp
    let ?p4 = "if now - lastUpdateTime p3 > 100
               then (emit (UpdateEvent (getState p3)) p3)\<lparr> lastUpdateTime := now \<rparr> else p3"
    have g4: "length (pixels (renderer ?p4)) = CDG_WIDTH * CDG_HEIGHT"
      using g3 by (simp add: emit_def)
    show ?thesis
      using False Done g4 grid_stop[OF g4]
      by (simp add: update_def Let_def emit_def)
  qed
qed

lemma grid_play:
  assumes "length (pixels (renderer p)) = CDG_WIDTH * CDG_HEIGHT"
  shows "length (pixels (renderer (playerOf (play now1 now2 now3 p)))) = CDG_WIDTH * CDG_HEIGHT"
proof -
  have "length (pixels (renderer (playerOf (case update now q of Thrown e q' \<Rightarrow> Thrown e q'
          | Done p3 \<Rightarrow> Done (emit (PlayEvent (getState p3)) p3))))) = CDG_WIDTH * CDG_HEIGHT"
    if "length (pixels (renderer q)) = CDG_WIDTH * CDG_HEIGHT" for now q
    using grid_update[OF that, of now] by (cases "update now q") (simp_all add: emit_def)
  then show ?thesis
    using assms by (simp add: play_def Let_def startAnimationLoop_def stopAnimationLoop_def)
qed

lemma grid_loadSong:
  assumes "length (pixels (renderer p)) = CDG_WIDTH * CDG_HEIGHT"
  shows "length (pixels (renderer (playerOf (loadSong src audio ttl singer sid p))))
         = CDG_WIDTH * CDG_HEIGHT"
proof (cases src)
  case None
  then show ?thesis using grid_stop[OF assms] by (simp add: loadSong_def Let_def)
next
  case (Some buffer)
  then show ?thesis
    using grid_stop[OF assms]
    by (simp add: loadSong_def Let_def playerOf_emitFrame grid_applyPackets reset_grid)
qed

subsection \<open>Incremental sync against seek\<close>

lemma sync_step:
  assumes inv: "syncInv d dur base q c" and le: "c \<le> t" and lt: "t < dur"
  shows "syncInv d dur base (playerOf (syncToAudioTime now t q)) t"
proof (cases "c < t")
  case True
  let ?tw = "\<lambda>u. takeWhile (\<lambda>pk. timeMs pk \<le> u) (packets d)"
  have res: "?tw c @ takeWhile (\<lambda>pk. timeMs pk \<le> t) (drop (length (?tw c)) (packets d)) = ?tw t"
    using le by (intro takeWhile_resume) simp
  let ?q1 = "applyPacketsFromTo c t q"
  have q1: "?q1 = q\<lparr> renderer := fold applyPacket (?tw t) base, packetIndex := length (?tw t) \<rparr>"
  proof -
    have "?q1 = q\<lparr> renderer := fold applyPacket
                       (takeWhile (\<lambda>pk. timeMs pk \<le> t) (drop (length (?tw c)) (packets d)))
                       (fold applyPacket (?tw c) base),
                    packetIndex := length (?tw c)
                       + length (takeWhile (\<lambda>pk. timeMs pk \<le> t) (drop (length (?tw c)) (packets d))) \<rparr>"
      using inv by (simp add: syncInv_def applyPacketsFromTo_def replayLoop_takeWhile)
    also have "fold applyPacket
                       (takeWhile (\<lambda>pk. timeMs pk \<le> t) (drop (length (?tw c)) (packets d)))
                       (fold applyPacket (?tw c) base) = fold applyPacket (?tw t) base"
      using arg_cong[OF res, of "\<lambda>xs. fold applyPacket xs base"] by simp
    also have "length (?tw c)
                       + length (takeWhile (\<lambda>pk. timeMs pk \<le> t) (drop (length (?tw c)) (packets d)))
               = length (?tw t)"
      using arg_cong[OF res, of length] by simp
    finally show ?thesis .
  qed
  have "syncToAudioTime now t q = syncFinish t ?q1"
    using inv True by (simp add: syncToAudioTime_def syncInv_def)
  also have "\<dots> = Done (?q1\<lparr> state := (state ?q1)\<lparr> currentTime := t \<rparr> \<rparr>)"
    using inv lt by (simp add: syncFinish_def Let_def q1 syncInv_def)
  finally show ?thesis using inv by (simp add: q1 syncInv_def)
next
  case False
  with le have e: "t = c" by simp
  have "syncToAudioTime now t q = syncFinish t q"
    using inv e by (simp add: syncToAudioTime_def syncInv_def)
  also have "\<dots> = Done (q\<lparr> state := (state q)\<lparr> currentTime := t \<rparr> \<rparr>)"
    using inv lt by (simp add: syncFinish_def Let_def syncInv_def)
  finally show ?thesis using inv e by (simp add: syncInv_def)
qed

lemma sync_all_inv:
  assumes "syncInv d dur base q c" "calls \<noteq> []" "sorted_wrt (<) (map snd calls)"
    "c \<le> snd (hd calls)" "snd (last calls) < dur"
  shows "syncInv d dur base (syncAll calls q) (snd (last calls))"
  using assms
proof (induction calls arbitrary: q c)
  case Nil
  then show ?case by simp
next
  case (Cons a calls)
  obtain now t where a: "a = (now, t)" by (cases a)
  show ?case
  proof (cases "calls = []")
    case True
    with Cons.prems a show ?thesis by (simp add: sync_step)
  next
    case False
    then have mem: "hd calls \<in> set calls" "last calls \<in> set calls" by simp_all
    from Cons.prems(3) a have lo: "\<forall>y \<in> set calls. t < snd y" by simp
    with mem have t1: "t < snd (hd calls)" and t2: "t < snd (last calls)" by simp_all
    from t2 Cons.prems(5) False have "t < dur" by simp
    with Cons.prems a have "syncInv d dur base (playerOf (syncToAudioTime now t q)) t"
      by (intro sync_step[of d dur base q c]) simp_all
    from Cons.IH[OF this False] Cons.prems(3,5) t1 False a show ?thesis by simp
  qed
qed

text \<open>
  Claim C4, as amended. Take a loaded file and a player that is playing and not paused,
  whose cursor and renderer are in step with \<open>currentTime\<close> (\<open>inStep\<close>), and calls
  \<open>syncToAudioTime(t1)\<close>, ..., \<open>syncToAudioTime(tn)\<close> with
  \<open>currentTime \<le> t1 < t2 < ... < tn < duration\<close>. Then the renderer after the calls is the
  renderer after one \<open>seek(tn)\<close> from the same starting point, and so is the result of
  \<open>getVisibleRgbaFrame\<close>.
\<close>

theorem sync_sequence_equals_seek:
  assumes loaded: "cdgData p = Some (parseCdgFile buffer)"
    and run: "playing (state p)" "\<not> paused (state p)"
    and step: "inStep p"
    and calls: "calls \<noteq> []" "sorted_wrt (<) (map snd calls)"
    and first: "currentTime (state p) \<le> snd (hd calls)"
    and last: "snd (last calls) < duration (state p)"
  shows "renderer (syncAll calls p) = renderer (playerOf (seek now (snd (last calls)) p))
       \<and> getVisibleRgbaFrame (renderer (syncAll calls p))
         = getVisibleRgbaFrame (renderer (playerOf (seek now (snd (last calls)) p)))"
proof -
  let ?d = "parseCdgFile buffer"
  let ?c = "currentTime (state p)"
  let ?tn = "snd (last calls)"
  note tf = takeWhile_eq_filter_sorted[OF parseCdgFile_sorted, of _ buffer]
  from step loaded have c0: "0 \<le> ?c"
    and idx: "packetIndex p = length (filter (\<lambda>pk. timeMs pk \<le> ?c) (packets ?d))"
    and rn: "renderer p = fold applyPacket (filter (\<lambda>pk. timeMs pk \<le> ?c) (packets ?d))
                            (reset (renderer p))"
    by (simp_all add: inStep_def)
  have inv: "syncInv ?d (duration (state p)) (reset (renderer p)) p ?c"
    using loaded run idx rn by (simp add: syncInv_def tf)
  have fin: "syncInv ?d (duration (state p)) (reset (renderer p)) (syncAll calls p) ?tn"
    by (rule sync_all_inv[OF inv calls first last])
  have "hd calls \<in> set calls" "last calls \<in> set calls" using calls(1) by simp_all
  have "snd (hd calls) \<le> ?tn"
  proof (cases calls)
    case Nil
    with calls(1) show ?thesis by simp
  next
    case (Cons a rest)
    show ?thesis
    proof (cases "rest = []")
      case True
      with Cons show ?thesis by simp
    next
      case False
      then have "last rest \<in> set rest" by simp
      with calls(2) Cons have "snd a < snd (last rest)" by simp
      with Cons False show ?thesis by simp
    qed
  qed
  with c0 first last have clamp: "max 0 (min ?tn (duration (state p))) = ?tn" by simp
  have "renderer (syncAll calls p) = renderer (playerOf (seek now ?tn p))"
    using fin seek_renderer[OF loaded, of now ?tn] unfolding clamp by (simp add: syncInv_def)
  then show ?thesis by simp
qed

lemma plain_frame:
  assumes px: "pixels rn = replicate (CDG_WIDTH * CDG_HEIGHT) 0"
    and pal: "palette rn = newPalette" and off: "hOffset rn = 0" "vOffset rn = 0"
  shows "\<exists>q. getVisibleRgbaFrame rn = Inr q \<and> q ! 3 = (if transparentColor rn = 0 then 0 else 255)"
proof -
  have cell: "visibleCell rn y x = Some [0, 0, 0, if transparentColor rn = 0 then 0 else 255]"
    if "y < CDG_VISIBLE_HEIGHT" "x < CDG_VISIBLE_WIDTH" for y x
  proof -
    have "(y + 12) * 300 + (x + 6) < 64800" using that by (simp add: cdg_consts)
    then show ?thesis
      by (simp add: visibleCell_def px pal off elemAt_def arrayGet_def newPalette_def cdg_consts
          toUint8Clamped_def)
  qed
  then have good: "\<And>y x. y < CDG_VISIBLE_HEIGHT \<Longrightarrow> x < CDG_VISIBLE_WIDTH \<Longrightarrow> visibleCell rn y x \<noteq> None"
    by simp
  have z: "(0::nat) < CDG_VISIBLE_HEIGHT" "(0::nat) < CDG_VISIBLE_WIDTH" by (simp_all add: cdg_consts)
  from frame_cell[OF good z _ cell[OF z], of 3] show ?thesis by auto
qed

lemma emitFrame_DoneD:
  "emitFrame q = Done q' \<Longrightarrow> q' = q \<or> (\<exists>f. q' = emit (FrameEvent f) q)"
  by (auto simp: emitFrame_def split: sum.splits option.splits)

lemma emitFrame_ThrownD: "emitFrame q = Thrown e q' \<Longrightarrow> q' = q"
  by (auto simp: emitFrame_def split: sum.splits option.splits)

lemma update_running:
  assumes l: "cdgData q = Some d" and run: "playing (state q)" "\<not> paused (state q)"
    and t: "now - startTime q < duration (state q)"
  shows "cdgData (playerOf (update now q)) = Some d
       \<and> state (playerOf (update now q)) = (state q)\<lparr> currentTime := now - startTime q \<rparr>
       \<and> packetIndex (playerOf (update now q)) = packetIndex (replayLoop (packets d) (now - startTime q) q)
       \<and> renderer (playerOf (update now q)) = renderer (replayLoop (packets d) (now - startTime q) q)"
proof -
  let ?q1 = "applyPacketsFromTo (currentTime (state q)) (now - startTime q) q"
  let ?q2 = "?q1\<lparr> state := (state ?q1)\<lparr> currentTime := now - startTime q \<rparr> \<rparr>"
  have q2: "cdgData ?q2 = Some d"
      "state ?q2 = (state q)\<lparr> currentTime := now - startTime q \<rparr>"
      "packetIndex ?q2 = packetIndex (replayLoop (packets d) (now - startTime q) q)"
      "renderer ?q2 = renderer (replayLoop (packets d) (now - startTime q) q)"
    using l by (simp_all add: applyPacketsFromTo_def replayLoop_takeWhile)
  have u: "update now q =
      (case emitFrame ?q2 of
         Thrown e q' \<Rightarrow> Thrown e q'
       | Done p3 \<Rightarrow>
          (let p4 = (if now - lastUpdateTime p3 > 100
                     then (emit (UpdateEvent (getState p3)) p3)\<lparr> lastUpdateTime := now \<rparr>
                     else p3)
           in if now - startTime q \<ge> duration (state p4) then Done (emit EndedEvent (stop p4))
              else Done (p4\<lparr> animationFrame := True \<rparr>)))"
    using run unfolding update_def Let_def by simp
  show ?thesis
  proof (cases "emitFrame ?q2")
    case (Thrown e q')
    with emitFrame_ThrownD[OF Thrown] q2 show ?thesis unfolding u by simp
  next
    case (Done p3)
    from emitFrame_DoneD[OF Done] have
      "cdgData p3 = cdgData ?q2 \<and> state p3 = state ?q2 \<and> packetIndex p3 = packetIndex ?q2
       \<and> renderer p3 = renderer ?q2"
      by (auto simp: emit_def)
    with Done q2 t show ?thesis unfolding u by (simp add: Let_def emit_def)
  qed
qed

lemma play_fresh:
  assumes l: "cdgData p = Some d" and np: "\<not> playing (state p)" "\<not> paused (state p)"
    and t: "now3 - now1 < duration (state p)"
  shows "cdgData (playerOf (play now1 now2 now3 p)) = Some d"
    "state (playerOf (play now1 now2 now3 p))
       = (state p)\<lparr> playing := True, paused := False, currentTime := now3 - now1 \<rparr>"
    "packetIndex (playerOf (play now1 now2 now3 p)) = packetIndex (replayLoop (packets d) (now3 - now1) p)"
    "renderer (playerOf (play now1 now2 now3 p)) = renderer (replayLoop (packets d) (now3 - now1) p)"
proof -
  let ?p2 = "stopAnimationLoop (p\<lparr> startTime := now1,
      state := (state p)\<lparr> playing := True, paused := False \<rparr>, lastUpdateTime := now2 \<rparr>)"
  have p2: "cdgData ?p2 = Some d" "playing (state ?p2)" "\<not> paused (state ?p2)"
    "startTime ?p2 = now1" "duration (state ?p2) = duration (state p)"
    "state ?p2 = (state p)\<lparr> playing := True, paused := False \<rparr>"
    using l by (simp_all add: stopAnimationLoop_def)
  have rl: "packetIndex (replayLoop (packets d) (now3 - now1) ?p2)
              = packetIndex (replayLoop (packets d) (now3 - now1) p)"
      "renderer (replayLoop (packets d) (now3 - now1) ?p2)
              = renderer (replayLoop (packets d) (now3 - now1) p)"
    by (simp_all add: replayLoop_takeWhile stopAnimationLoop_def)
  have t2: "now3 - startTime ?p2 < duration (state ?p2)" using t p2 by simp
  note u = update_running[OF p2(1,2,3) t2, unfolded p2(4,6) rl]
  have pl: "play now1 now2 now3 p =
      (case update now3 ?p2 of
         Thrown e q' \<Rightarrow> Thrown e q'
       | Done p3 \<Rightarrow> Done (emit (PlayEvent (getState p3)) p3))"
    using l np by (simp add: play_def startAnimationLoop_def Let_def)
  have "cdgData (playerOf (play now1 now2 now3 p)) = cdgData (playerOf (update now3 ?p2))
      \<and> state (playerOf (play now1 now2 now3 p)) = state (playerOf (update now3 ?p2))
      \<and> packetIndex (playerOf (play now1 now2 now3 p)) = packetIndex (playerOf (update now3 ?p2))
      \<and> renderer (playerOf (play now1 now2 now3 p)) = renderer (playerOf (update now3 ?p2))"
    unfolding pl by (cases "update now3 ?p2") (simp_all add: emit_def)
  with u show "cdgData (playerOf (play now1 now2 now3 p)) = Some d"
    "state (playerOf (play now1 now2 now3 p))
       = (state p)\<lparr> playing := True, paused := False, currentTime := now3 - now1 \<rparr>"
    "packetIndex (playerOf (play now1 now2 now3 p)) = packetIndex (replayLoop (packets d) (now3 - now1) p)"
    "renderer (playerOf (play now1 now2 now3 p)) = renderer (replayLoop (packets d) (now3 - now1) p)"
    by simp_all
qed

lemma loaded_fields:
  fixes L defines "L \<equiv> playerOf (loadSong (Some twoPacketFile) ''song.mp3'' ''Song'' ''Singer'' 1 newCdgPlayer)"
  shows "cdgData L = Some (parseCdgFile twoPacketFile)"
    "\<not> playing (state L)" "\<not> paused (state L)"
    "currentTime (state L) = 0" "duration (state L) = 7505999378950827 / 1125899906842624"
    "packetIndex L = 1" "renderer L = newCdgRenderer"
  unfolding L_def loadSong_def Let_def
  by (simp_all add: playerOf_emitFrame applyPacketsUpTo_def replayLoop_takeWhile stop_def
      stopAnimationLoop_def emit_def getState_def newCdgPlayer_def twoPacketFile_parsed
      applyPacket_def reset_def newCdgRenderer_def toUint8_def)


lemma loadedTwoPackets_fields:
  "cdgData loadedTwoPackets = Some (parseCdgFile twoPacketFile)"
  "playing (state loadedTwoPackets)" "\<not> paused (state loadedTwoPackets)"
  "currentTime (state loadedTwoPackets) = 0" "duration (state loadedTwoPackets) = 7505999378950827 / 1125899906842624"
  "packetIndex loadedTwoPackets = 1" "renderer loadedTwoPackets = newCdgRenderer"
  unfolding loadedTwoPackets_def
  using play_fresh[OF loaded_fields(1,2,3), of 0 0 0]
  by (simp_all add: loaded_fields replayLoop_takeWhile twoPacketFile_parsed)

lemma playingAtFive_fields:
  "cdgData playingAtFive = Some (parseCdgFile twoPacketFile)"
  "playing (state playingAtFive)" "\<not> paused (state playingAtFive)"
  "currentTime (state playingAtFive) = 5" "duration (state playingAtFive) = 7505999378950827 / 1125899906842624"
  "packetIndex playingAtFive = 2"
  "renderer playingAtFive = newCdgRenderer\<lparr> transparentColor := 0 \<rparr>"
  unfolding playingAtFive_def
  by (simp_all add: syncToAudioTime_def syncFinish_def Let_def loadedTwoPackets_fields
      applyPacketsFromTo_def replayLoop_takeWhile twoPacketFile_parsed applyPacket_def)

lemma playingAtFive_inStep: "inStep playingAtFive"
  by (simp add: inStep_def playingAtFive_fields twoPacketFile_parsed
      applyPacket_def reset_def newCdgRenderer_def toUint8_def)

lemma playingAtFive_sync:
  "renderer (syncAll [(0, 1), (0, 2)] playingAtFive) = newCdgRenderer\<lparr> transparentColor := 0 \<rparr>"
proof -
  let ?q1 = "playingAtFive\<lparr> state := (state playingAtFive)\<lparr> currentTime := 1 \<rparr> \<rparr>"
  have s1: "syncToAudioTime 0 1 playingAtFive = Done ?q1"
    by (simp add: syncToAudioTime_def syncFinish_def playingAtFive_fields Let_def)
  have a: "applyPacketsFromTo 1 2 ?q1 = ?q1"
    by (simp add: applyPacketsFromTo_def replayLoop_takeWhile playingAtFive_fields twoPacketFile_parsed)
  have s2: "syncToAudioTime 0 2 ?q1 = Done (?q1\<lparr> state := (state ?q1)\<lparr> currentTime := 2 \<rparr> \<rparr>)"
    unfolding syncToAudioTime_def syncFinish_def Let_def
    by (simp add: playingAtFive_fields a)
  show ?thesis by (simp add: s1 s2 playingAtFive_fields)
qed

lemma playingAtFive_seek:
  "renderer (playerOf (seek 0 2 playingAtFive)) = newCdgRenderer"
proof -
  have "max 0 (min 2 (duration (state playingAtFive))) = 2" by (simp add: playingAtFive_fields)
  then show ?thesis
    using seek_renderer[OF playingAtFive_fields(1), of 0 2]
    by (simp add: twoPacketFile_parsed playingAtFive_fields applyPacket_def reset_def
        newCdgRenderer_def toUint8_def)
qed

text \<open>
  Claim C4 as stated fails when the calls start behind \<open>currentTime\<close> by at most a
  second: \<open>syncToAudioTime\<close> ignores a small step backwards and keeps the instructions it
  has applied. On \<open>playingAtFive\<close> (the player after \<open>loadSong\<close>, \<open>play\<close> and
  \<open>syncToAudioTime(5)\<close>: playing, not paused, cursor and renderer in step with
  \<open>currentTime = 5\<close>) the calls with times \<open>1 < 2 < duration\<close> leave the
  define-transparent of packet 1 applied, while \<open>seek(2)\<close> does not apply it: the two
  visible frames differ (in the alpha byte of the first pixel).
\<close>

theorem sync_after_backward_jitter_differs:
  "cdgData playingAtFive = Some (parseCdgFile twoPacketFile)
   \<and> playing (state playingAtFive) \<and> \<not> paused (state playingAtFive)
   \<and> inStep playingAtFive
   \<and> (1::rat) < 2 \<and> 2 < duration (state playingAtFive)
   \<and> getVisibleRgbaFrame (renderer (syncAll [(0, 1), (0, 2)] playingAtFive))
       \<noteq> getVisibleRgbaFrame (renderer (playerOf (seek 0 2 playingAtFive)))"
proof -
  obtain q1 where q1: "getVisibleRgbaFrame (newCdgRenderer\<lparr> transparentColor := 0 \<rparr>) = Inr q1" "q1 ! 3 = 0"
    using plain_frame[of "newCdgRenderer\<lparr> transparentColor := 0 \<rparr>"]
    by (auto simp: newCdgRenderer_def)
  obtain q2 where q2: "getVisibleRgbaFrame newCdgRenderer = Inr q2" "q2 ! 3 = 255"
    using plain_frame[of newCdgRenderer] by (auto simp: newCdgRenderer_def)
  from q1 q2 have "q1 \<noteq> q2" by auto
  then show ?thesis
    unfolding playingAtFive_sync playingAtFive_seek q1 q2
    by (simp add: playingAtFive_fields playingAtFive_inStep)
qed

lemma playingAtOne_fields:
  "cdgData playingAtOne = Some (parseCdgFile twoPacketFile)"
  "playing (state playingAtOne)" "\<not> paused (state playingAtOne)"
  "currentTime (state playingAtOne) = 1" "duration (state playingAtOne) = 7505999378950827 / 1125899906842624"
  "packetIndex playingAtOne = 1"
  "renderer playingAtOne = newCdgRenderer"
  unfolding playingAtOne_def
  by (simp_all add: syncToAudioTime_def syncFinish_def Let_def loadedTwoPackets_fields
      applyPacketsFromTo_def replayLoop_takeWhile twoPacketFile_parsed applyPacket_def)

lemma playingAtOne_inStep: "inStep playingAtOne"
  by (simp add: inStep_def playingAtOne_fields twoPacketFile_parsed
      applyPacket_def reset_def newCdgRenderer_def toUint8_def)

theorem sync_sequence_equals_seek_witness:
  "cdgData playingAtOne = Some (parseCdgFile twoPacketFile)
   \<and> playing (state playingAtOne) \<and> \<not> paused (state playingAtOne)
   \<and> inStep playingAtOne
   \<and> sorted_wrt (<) (map snd [(0, 2), (0, 4), (0, 6 :: rat)])
   \<and> currentTime (state playingAtOne) \<le> 2
   \<and> 6 < duration (state playingAtOne)
   \<and> renderer (syncAll [(0, 2), (0, 4), (0, 6)] playingAtOne)
       = renderer (playerOf (seek 0 6 playingAtOne))
   \<and> renderer (playerOf (seek 0 6 playingAtOne)) = newCdgRenderer\<lparr> transparentColor := 0 \<rparr>"
proof -
  have s: "sorted_wrt (<) (map snd [(0, 2), (0, 4), (0, 6 :: rat)])" by simp
  have f: "currentTime (state playingAtOne) \<le> snd (hd [(0, 2), (0, 4), (0, 6 :: rat)])"
    by (simp add: playingAtOne_fields)
  have l: "snd (last [(0, 2), (0, 4), (0, 6 :: rat)]) < duration (state playingAtOne)"
    by (simp add: playingAtOne_fields)
  have "max 0 (min 6 (duration (state playingAtOne))) = 6" by (simp add: playingAtOne_fields)
  then have k: "renderer (playerOf (seek 0 6 playingAtOne)) = newCdgRenderer\<lparr> transparentColor := 0 \<rparr>"
    using seek_renderer[OF playingAtOne_fields(1), of 0 6]
    by (simp add: twoPacketFile_parsed playingAtOne_fields applyPacket_def reset_def
        newCdgRenderer_def toUint8_def)
  have "renderer (syncAll [(0, 2), (0, 4), (0, 6)] playingAtOne)
       = renderer (playerOf (seek 0 6 playingAtOne))"
    using sync_sequence_equals_seek[OF playingAtOne_fields(1,2,3) playingAtOne_inStep _ s f l, of 0]
    by simp
  with k s show ?thesis by (simp add: playingAtOne_fields playingAtOne_inStep)
qed

subsection \<open>A player with no song loaded is never playing\<close>

text \<open>
  \<open>cdgData\<close> is set by \<open>loadSong\<close> only, and \<open>playing\<close> becomes true in \<open>play\<close> only, behind
  the check of \<open>cdgData\<close>. So \<open>idleIfUnloaded\<close> holds of the player as constructed and
  after every operation: \<open>pause\<close>, which has no check of \<open>cdgData\<close> of its own, finds
  \<open>playing\<close> false whenever no song is loaded.
\<close>

lemma cdgData_replayLoop: "cdgData (replayLoop pkts t p) = cdgData p"
  by (simp add: replayLoop_takeWhile)

lemma cdgData_stop: "cdgData (stop p) = cdgData p"
  by (simp add: stop_def stopAnimationLoop_def Let_def emit_def)

lemma cdgData_after_frame:
  assumes "\<And>x. cdgData (playerOf (F x)) = cdgData x"
  shows "cdgData (playerOf (case emitFrame q of Thrown e q' \<Rightarrow> Thrown e q' | Done p5 \<Rightarrow> F p5))
         = cdgData q"
proof (cases "emitFrame q")
  case (Done p5)
  with emitFrame_DoneD[OF Done] assms[of p5] show ?thesis by (auto simp: emit_def)
next
  case (Thrown e q')
  with emitFrame_ThrownD[OF Thrown] show ?thesis by simp
qed

lemma cdgData_applyPackets:
  "cdgData (applyPacketsUpTo t p) = cdgData p"
  "cdgData (applyPacketsFromTo a t p) = cdgData p"
  by (simp_all add: applyPacketsUpTo_def applyPacketsFromTo_def Let_def cdgData_replayLoop
      split: option.splits)

lemma cdgData_seek: "cdgData (playerOf (seek now t p)) = cdgData p"
proof (cases "cdgData p")
  case None
  then show ?thesis by (simp add: seek_def)
next
  case (Some d)
  then show ?thesis
    unfolding seek_def Let_def
    by (simp add: cdgData_after_frame emit_def cdgData_applyPackets)
qed

lemma cdgData_syncFinish: "cdgData (playerOf (syncFinish t p)) = cdgData p"
  by (simp add: syncFinish_def Let_def emit_def cdgData_stop)

lemma cdgData_sync: "cdgData (playerOf (syncToAudioTime now t p)) = cdgData p"
  by (simp add: syncToAudioTime_def cdgData_syncFinish cdgData_seek cdgData_applyPackets)

lemma cdgData_update: "cdgData (playerOf (update now p)) = cdgData p"
  unfolding update_def Let_def
  by (simp add: cdgData_after_frame emit_def cdgData_stop cdgData_applyPackets)

lemma cdgData_play: "cdgData (playerOf (play now1 now2 now3 p)) = cdgData p"
proof -
  have "cdgData (playerOf (case update now q of Thrown e q' \<Rightarrow> Thrown e q'
                            | Done p3 \<Rightarrow> Done (emit (PlayEvent (getState p3)) p3))) = cdgData q" for now q
    using cdgData_update[of now q] by (cases "update now q") (simp_all add: emit_def)
  then show ?thesis
    by (simp add: play_def Let_def startAnimationLoop_def stopAnimationLoop_def)
qed

lemma cdgData_pause: "cdgData (pause now p) = cdgData p"
  by (simp add: pause_def Let_def emit_def stopAnimationLoop_def)

lemma idle_init: "idleIfUnloaded newCdgPlayer"
  by (simp add: idleIfUnloaded_def newCdgPlayer_def)

lemma idle_stop: "idleIfUnloaded (stop p)"
  by (simp add: idleIfUnloaded_def stop_def stopAnimationLoop_def Let_def emit_def)

lemma idle_loadSong: "idleIfUnloaded (playerOf (loadSong src audio ttl singer sid p))"
proof (cases src)
  case None
  then show ?thesis using idle_stop[of p] by (simp add: loadSong_def Let_def)
next
  case (Some buffer)
  then show ?thesis
    by (simp add: loadSong_def Let_def idleIfUnloaded_def playerOf_emitFrame cdgData_applyPackets)
qed

lemma idle_operations:
  assumes "idleIfUnloaded p"
  shows "idleIfUnloaded (playerOf (play now1 now2 now3 p))"
    and "idleIfUnloaded (pause now p)"
    and "idleIfUnloaded (playerOf (seek now t p))"
    and "idleIfUnloaded (playerOf (syncToAudioTime now t p))"
    and "idleIfUnloaded (playerOf (update now p))"
proof -
  have loaded: "idleIfUnloaded q" if "cdgData q = cdgData p" "cdgData p \<noteq> None" for q
    using that by (simp add: idleIfUnloaded_def)
  show "idleIfUnloaded (playerOf (play now1 now2 now3 p))"
  proof (cases "cdgData p")
    case None
    with assms show ?thesis by (simp add: play_def)
  next
    case (Some d)
    then show ?thesis by (intro loaded cdgData_play) simp
  qed
  show "idleIfUnloaded (pause now p)"
  proof (cases "cdgData p")
    case None
    with assms show ?thesis by (simp add: pause_def idleIfUnloaded_def)
  next
    case (Some d)
    then show ?thesis by (intro loaded cdgData_pause) simp
  qed
  show "idleIfUnloaded (playerOf (seek now t p))"
  proof (cases "cdgData p")
    case None
    with assms show ?thesis by (simp add: seek_def)
  next
    case (Some d)
    then show ?thesis by (intro loaded cdgData_seek) simp
  qed
  show "idleIfUnloaded (playerOf (syncToAudioTime now t p))"
  proof (cases "cdgData p")
    case None
    with assms show ?thesis by (simp add: syncToAudioTime_def)
  next
    case (Some d)
    then show ?thesis by (intro loaded cdgData_sync) simp
  qed
  show "idleIfUnloaded (playerOf (update now p))"
  proof (cases "cdgData p")
    case None
    with assms show ?thesis by (simp add: update_def idleIfUnloaded_def)
  next
    case (Some d)
    then show ?thesis by (intro loaded cdgData_update) simp
  qed
qed

end
